theory Spec2Isabelle
  imports
    Complex_Main
    "HOL-Library.Finite_Map"
    "HOL-Library.Char_ord"
    "HOL-Library.List_Lexorder"
    "HOL-Library.Sublist"
    "HOL-Library.Word"
begin

section \<open>Go strings and the library functions the code calls\<close>

text \<open>
  A Go string is a sequence of bytes and is compared byte by byte; \<^typ>\<open>string\<close> with the
  order of \<^theory_text>\<open>Char_ord\<close> and \<^theory_text>\<open>List_Lexorder\<close> is exactly that.
  The functions below are the instances of \<^verbatim>\<open>strings.SplitAfterN(s, "/", 2)\<close>,
  \<^verbatim>\<open>strings.TrimSuffix(s, "/")\<close>, \<^verbatim>\<open>strings.CutPrefix\<close>,
  \<^verbatim>\<open>strings.Split(s, "/")\<close> and \<^verbatim>\<open>strconv.Atoi\<close> (64-bit \<^verbatim>\<open>int\<close>)
  that the repository calls.
\<close>

definition SplitAfterN2 :: "string \<Rightarrow> string list" where
  "SplitAfterN2 s =
     (if CHR ''/'' \<in> set s
      then [takeWhile (\<lambda>c. c \<noteq> CHR ''/'') s @ ''/'', tl (dropWhile (\<lambda>c. c \<noteq> CHR ''/'') s)]
      else [s])"

definition TrimSuffix :: "string \<Rightarrow> string" where
  "TrimSuffix s = (if s \<noteq> [] \<and> last s = CHR ''/'' then butlast s else s)"

definition CutPrefix :: "string \<Rightarrow> string \<Rightarrow> string option" where
  "CutPrefix s p = (if prefix p s then Some (drop (length p) s) else None)"

fun Split :: "string \<Rightarrow> string list" where
  "Split [] = [[]]"
| "Split (c # cs) =
     (if c = CHR ''/'' then [] # Split cs
      else (case Split cs of [] \<Rightarrow> [[c]] | seg # segs \<Rightarrow> (c # seg) # segs))"

definition digit_of :: "char \<Rightarrow> nat option" where
  "digit_of c = (if CHR ''0'' \<le> c \<and> c \<le> CHR ''9'' then Some (of_char c - 48) else None)"

fun digits_value :: "nat \<Rightarrow> string \<Rightarrow> nat option" where
  "digits_value acc [] = Some acc"
| "digits_value acc (c # cs) =
     (case digit_of c of None \<Rightarrow> None | Some d \<Rightarrow> digits_value (10 * acc + d) cs)"

definition Atoi :: "string \<Rightarrow> int option" where
  "Atoi s =
     (let neg = (s \<noteq> [] \<and> hd s = CHR ''-'');
          ds = (if s \<noteq> [] \<and> (hd s = CHR ''-'' \<or> hd s = CHR ''+'') then tl s else s)
      in if ds = [] then None
         else (case digits_value 0 ds of
                 None \<Rightarrow> None
               | Some n \<Rightarrow>
                   (let v = (if neg then - int n else int n)
                    in if v < - (2 ^ 63) \<or> 2 ^ 63 \<le> v then None else Some v)))"

section \<open>JSON values and the patch engine (package patcher)\<close>

text \<open>
  A decoded JSON value is \<^verbatim>\<open>nil\<close>, a \<^verbatim>\<open>bool\<close>, a \<^verbatim>\<open>float64\<close>, a
  \<^verbatim>\<open>string\<close>, a \<^verbatim>\<open>[]any\<close> or a \<^verbatim>\<open>map[string]any\<close>. A Go slice is a
  header (backing array, length) and several headers may share one backing array, so arrays
  live in an explicit store: \<open>JSlice a n\<close> is the slice of the first \<open>n\<close> cells of the
  backing array at address \<open>a\<close>, whose capacity is the length of that array in the store.
  The patch engine never writes into a map (it fills a fresh \<^verbatim>\<open>result\<close> map), so
  maps are values. The untyped \<^verbatim>\<open>nil\<close> that the visitor returns beside an error is
  the same Go value as a decoded JSON \<^verbatim>\<open>null\<close>: \<open>JNull\<close>.
\<close>

datatype json =
    JNull
  | JBool bool
  | JNumber real
  | JString string
  | JSlice nat nat
  | JMap "(string, json) fmap"

type_synonym store = "json list list"

text \<open>
  Two things belong to the Go runtime and not to the repository; they are parameters:
  \<^verbatim>\<open>reflect.DeepEqual\<close> (called by \<^verbatim>\<open>Equal\<close>), and the number of spare
  cells that \<^verbatim>\<open>append\<close> adds when it has to allocate a backing array for a given
  number of elements.
\<close>

record go_runtime =
  DeepEqual :: "json list list \<Rightarrow> json \<Rightarrow> json \<Rightarrow> bool"
  growslice :: "nat \<Rightarrow> nat"

record Patch =
  Operation :: string
  Path :: string
  Value :: json

datatype patch_error =
    MissingLeadingSlash
  | KeyNotFound string
  | InvalidPatchOperation
  | InvalidIndex
  | IndexOutOfBounds
  | PathEndsInSlice
  | PatchingBool
  | PatchingNumber
  | PatchingString
  | PatchingNull

definition slice_elems :: "store \<Rightarrow> nat \<Rightarrow> nat \<Rightarrow> json list" where
  "slice_elems st a n = take n (st ! a)"

definition valid_slice :: "store \<Rightarrow> nat \<Rightarrow> nat \<Rightarrow> bool" where
  "valid_slice st a n \<longleftrightarrow> a < length st \<and> n \<le> length (st ! a)"

text \<open>
  A slice built by \<^verbatim>\<open>make([]any, 0)\<close> and a run of \<^verbatim>\<open>append\<close>s: the
  intermediate backing arrays are garbage as soon as they are outgrown, so the model
  allocates the final array once, at a fresh address.
\<close>

definition make_slice :: "go_runtime \<Rightarrow> store \<Rightarrow> json list \<Rightarrow> store \<times> json" where
  "make_slice rt st elems =
     (st @ [elems @ replicate (growslice rt (length elems)) JNull],
      JSlice (length st) (length elems))"

fun first_index :: "('a \<Rightarrow> bool) \<Rightarrow> 'a list \<Rightarrow> nat option" where
  "first_index P [] = None"
| "first_index P (x # xs) = (if P x then Some 0 else map_option Suc (first_index P xs))"

text \<open>\<^verbatim>\<open>new\<close>: the visitor starts with the patch path less its leading slash.\<close>

definition new_visitor :: "Patch \<Rightarrow> patch_error + string" where
  "new_visitor patch =
     (case CutPrefix (Path patch) ''/'' of
        None \<Rightarrow> Inl MissingLeadingSlash
      | Some currentPath \<Rightarrow> Inr currentPath)"

text \<open>
  The loop \<^verbatim>\<open>for i, val := range slice\<close> of \<^verbatim>\<open>patchVisitor.Slice\<close>: the element
  at \<open>targetIndex\<close> is visited, every other element is appended to \<open>result\<close> as it is. Each
  element is read from the backing array when its iteration starts.
\<close>

function slice_range ::
  "(store \<Rightarrow> json \<Rightarrow> store \<times> json \<times> patch_error option) \<Rightarrow> int \<Rightarrow> nat \<Rightarrow> nat \<Rightarrow> nat
     \<Rightarrow> store \<Rightarrow> json list \<Rightarrow> store \<times> (json \<times> patch_error + json list)"
where
  "slice_range visit targetIndex a n i st result =
     (if i < n then
        (let val = st ! a ! i in
         if int i = targetIndex then
           (case visit st val of
              (st', updated, Some e) \<Rightarrow> (st', Inl (updated, e))
            | (st', updated, None) \<Rightarrow>
                slice_range visit targetIndex a n (i + 1) st' (result @ [updated]))
         else slice_range visit targetIndex a n (i + 1) st (result @ [val]))
      else (st, Inr result))"
  by pat_completeness auto
termination
  by (relation "measure (\<lambda>(visit, targetIndex, a, n, i, st, result). n - i)") auto

declare slice_range.simps [simp del]

text \<open>
  \<^verbatim>\<open>Accept\<close> dispatches on the dynamic type; \<^verbatim>\<open>Map\<close> and \<^verbatim>\<open>Slice\<close> are
  the visitor's methods. The visitor's mutable field \<^verbatim>\<open>currentPath\<close> is the last
  argument: it is only ever read by the callee, never again by the caller after a nested
  \<^verbatim>\<open>Accept\<close> returns. Both loops over \<^verbatim>\<open>range m\<close> look for the one entry whose
  key is \<open>targetKey\<close> and copy all others, whatever the iteration order: a lookup.
\<close>

function Accept ::
    "go_runtime \<Rightarrow> store \<Rightarrow> json \<Rightarrow> Patch \<Rightarrow> string \<Rightarrow> store \<times> json \<times> patch_error option"
  and patchVisitor_Map ::
    "go_runtime \<Rightarrow> store \<Rightarrow> (string, json) fmap \<Rightarrow> Patch \<Rightarrow> string
       \<Rightarrow> store \<times> json \<times> patch_error option"
  and patchVisitor_Slice ::
    "go_runtime \<Rightarrow> store \<Rightarrow> nat \<times> nat \<Rightarrow> Patch \<Rightarrow> string
       \<Rightarrow> store \<times> json \<times> patch_error option"
where
  "Accept rt st v p cur =
     (case v of
        JMap m \<Rightarrow> patchVisitor_Map rt st m p cur
      | JSlice a n \<Rightarrow> patchVisitor_Slice rt st (a, n) p cur
      | JNumber x \<Rightarrow> (st, JNull, Some PatchingNumber)
      | JBool b \<Rightarrow> (st, JNull, Some PatchingBool)
      | JString s \<Rightarrow> (st, JNull, Some PatchingString)
      | JNull \<Rightarrow> (st, JNull, Some PatchingNull))"
| "patchVisitor_Map rt st m p cur =
     (let splittedPath = SplitAfterN2 cur;
          targetKey = TrimSuffix (hd splittedPath)
      in if length splittedPath = 1 \<and> Operation p = ''ObjectAdd''
         then (case fmlookup m targetKey of
                 Some existing \<Rightarrow> (st, JMap m, None)
               | None \<Rightarrow> (st, JMap (fmupd targetKey (Value p) m), None))
         else (case fmlookup m targetKey of
                 None \<Rightarrow> (st, JMap m, Some (KeyNotFound targetKey))
               | Some val \<Rightarrow>
                   (case Accept rt st val p
                           (if length splittedPath \<noteq> 1 then splittedPath ! 1 else []) of
                      (st', updated, Some e) \<Rightarrow> (st', updated, Some e)
                    | (st', updated, None) \<Rightarrow> (st', JMap (fmupd targetKey updated m), None))))"
| "patchVisitor_Slice rt st sl p cur =
     (let a = fst sl; n = snd sl in
      if Operation p = ''ArrayAdd'' \<and> cur = [] then
        (if n < length (st ! a)
         then (st[a := (st ! a)[n := Value p]], JSlice a (n + 1), None)
         else (case make_slice rt st (take n (st ! a) @ [Value p]) of
                 (st', array) \<Rightarrow> (st', array, None)))
      else if Operation p = ''ArrayRemove'' \<and> cur = [] then
        (case first_index (\<lambda>val. DeepEqual rt st val (Value p)) (take n (st ! a)) of
           Some i \<Rightarrow>
             (st[a := take i (st ! a) @ drop (i + 1) (take n (st ! a)) @ drop (n - 1) (st ! a)],
              JSlice a (n - 1), None)
         | None \<Rightarrow> (st, JSlice a n, None))
      else if cur = [] then (st, JNull, Some InvalidPatchOperation)
      else
        (let splittedPath = SplitAfterN2 cur;
             targetKey = TrimSuffix (hd splittedPath)
         in case Atoi targetKey of
              None \<Rightarrow> (st, JSlice a n, Some InvalidIndex)
            | Some targetIndex \<Rightarrow>
                if int n \<le> targetIndex then (st, JSlice a n, Some IndexOutOfBounds)
                else if length splittedPath = 1 then (st, JSlice a n, Some PathEndsInSlice)
                else (case slice_range (\<lambda>st' val. Accept rt st' val p (splittedPath ! 1))
                             targetIndex a n 0 st [] of
                        (st', Inl (updated, e)) \<Rightarrow> (st', updated, Some e)
                      | (st', Inr result) \<Rightarrow>
                          (case make_slice rt st' result of
                             (st'', array) \<Rightarrow> (st'', array, None)))))"
  by pat_completeness auto

lemma size_fmlookup: "fmlookup m k = Some v \<Longrightarrow> size v < size (JMap m)"
proof -
  assume a: "fmlookup m k = Some v"
  let ?S = "fset (fset_of_fmap m)"
  let ?f = "\<lambda>x. Suc (case x of (a, b) \<Rightarrow> 0 + size b)"
  have mem: "(k, v) \<in> ?S" using a by (simp add: fset_of_fmap_iff')
  have "?f (k, v) \<le> sum ?f ?S"
    by (rule member_le_sum [OF mem]) auto
  then show ?thesis by simp
qed

lemma SplitAfterN2_rest_shorter:
  "length (SplitAfterN2 cur) \<noteq> 1 \<Longrightarrow> length (SplitAfterN2 cur ! 1) < length cur"
proof -
  assume a: "length (SplitAfterN2 cur) \<noteq> 1"
  then have mem: "CHR ''/'' \<in> set cur" by (auto simp: SplitAfterN2_def split: if_splits)
  then have ne: "dropWhile (\<lambda>c. c \<noteq> CHR ''/'') cur \<noteq> []" by simp
  have "length (tl (dropWhile (\<lambda>c. c \<noteq> CHR ''/'') cur)) < length (dropWhile (\<lambda>c. c \<noteq> CHR ''/'') cur)"
    using ne by (cases "dropWhile (\<lambda>c. c \<noteq> CHR ''/'') cur") auto
  also have "\<dots> \<le> length cur" by (rule length_dropWhile_le)
  finally show ?thesis using mem by (simp add: SplitAfterN2_def)
qed

text \<open>
  Termination: every nested visit below a slice consumes a path segment; below a map it
  consumes a segment or, when the path is already empty, descends into a strictly smaller
  value.
\<close>

termination Accept
  apply (relation "inv_image (less_than <*lex*> less_than <*lex*> less_than)
     (\<lambda>x. case x of
         Inl (rt, st, v, p, cur) \<Rightarrow> (length cur, size v, Suc 0)
       | Inr (Inl (rt, st, m, p, cur)) \<Rightarrow> (length cur, size (JMap m), 0)
       | Inr (Inr (rt, st, sl, p, cur)) \<Rightarrow> (length cur, 0, 0))")
  subgoal by (intro wf_inv_image wf_lex_prod wf_less_than)
  subgoal by simp
  subgoal by simp
  subgoal for rt st m p cur splittedPath targetKey val
    using size_fmlookup [of m targetKey val] SplitAfterN2_rest_shorter [of cur]
    by (auto simp: SplitAfterN2_def)
  subgoal for rt st sl p cur a n splittedPath targetKey targetIndex st' val
    using SplitAfterN2_rest_shorter [of cur] by auto
  done

declare Accept.simps [simp del] patchVisitor_Map.simps [simp del] patchVisitor_Slice.simps [simp del]

text \<open>\<^verbatim>\<open>ApplyPatch\<close>: without a leading slash the result is \<^verbatim>\<open>(nil, err)\<close>.\<close>

definition ApplyPatch :: "go_runtime \<Rightarrow> store \<Rightarrow> json \<Rightarrow> Patch \<Rightarrow> store \<times> json \<times> patch_error option" where
  "ApplyPatch rt st doc patch =
     (case new_visitor patch of
        Inl err \<Rightarrow> (st, JNull, Some err)
      | Inr currentPath \<Rightarrow> Accept rt st doc patch currentPath)"

section \<open>Properties of the patch engine\<close>

lemma slice_range_past_target:
  "targetIndex < int i \<Longrightarrow> n \<le> length (st ! a) \<Longrightarrow>
   slice_range visit targetIndex a n i st result = (st, Inr (result @ drop i (take n (st ! a))))"
proof (induction "n - i" arbitrary: i result)
  case 0
  then show ?case by (simp add: slice_range.simps)
next
  case (Suc d)
  then have lt: "i < n" and d: "d = n - (i + 1)" by auto
  have step: "slice_range visit targetIndex a n i st result =
        slice_range visit targetIndex a n (i + 1) st (result @ [st ! a ! i])"
    using lt Suc.prems by (subst slice_range.simps) simp
  have "targetIndex < int (i + 1)" using Suc.prems by simp
  from Suc.hyps(1) [OF d this Suc.prems(2)]
  have "slice_range visit targetIndex a n (i + 1) st (result @ [st ! a ! i]) =
        (st, Inr ((result @ [st ! a ! i]) @ drop (i + 1) (take n (st ! a))))" .
  moreover have "drop i (take n (st ! a)) = st ! a ! i # drop (i + 1) (take n (st ! a))"
    using lt Suc.prems(2) by (simp add: Cons_nth_drop_Suc [symmetric])
  ultimately show ?case using step by simp
qed

lemma digits_value_no_slash:
  "digits_value acc ds = Some n \<Longrightarrow> CHR ''/'' \<notin> set ds"
  by (induction ds arbitrary: acc) (auto simp: digit_of_def split: option.splits if_splits)

lemma Atoi_no_slash: "Atoi s = Some i \<Longrightarrow> CHR ''/'' \<notin> set s"
proof -
  assume a: "Atoi s = Some i"
  let ?ds = "if s \<noteq> [] \<and> (hd s = CHR ''-'' \<or> hd s = CHR ''+'') then tl s else s"
  from a obtain n where "digits_value 0 ?ds = Some n"
    by (auto simp: Atoi_def Let_def split: if_splits option.splits)
  then have "CHR ''/'' \<notin> set ?ds" by (rule digits_value_no_slash)
  then show ?thesis by (cases s) (auto split: if_splits)
qed

lemma SplitAfterN2_segment:
  assumes "CHR ''/'' \<notin> set seg"
  shows "SplitAfterN2 (seg @ CHR ''/'' # rest) = [seg @ ''/'', rest]"
proof -
  have all: "\<And>x. x \<in> set seg \<Longrightarrow> x \<noteq> CHR ''/''" using assms by auto
  have "takeWhile (\<lambda>c. c \<noteq> CHR ''/'') (seg @ CHR ''/'' # rest) = seg"
    using all by (simp add: takeWhile_append2)
  moreover have "dropWhile (\<lambda>c. c \<noteq> CHR ''/'') (seg @ CHR ''/'' # rest) = CHR ''/'' # rest"
    using all by (simp add: dropWhile_append2)
  ultimately show ?thesis by (simp add: SplitAfterN2_def)
qed

lemma SplitAfterN2_terminal:
  "CHR ''/'' \<notin> set seg \<Longrightarrow> SplitAfterN2 seg = [seg]"
  by (simp add: SplitAfterN2_def)

lemma TrimSuffix_segment: "TrimSuffix (seg @ [CHR ''/'']) = seg"
  by (simp add: TrimSuffix_def)

lemma TrimSuffix_terminal: "CHR ''/'' \<notin> set seg \<Longrightarrow> TrimSuffix seg = seg"
  by (cases seg rule: rev_cases) (auto simp: TrimSuffix_def)

text \<open>
  C10. A path segment that \<^verbatim>\<open>strconv.Atoi\<close> reads as a negative integer, followed by
  a slash, passes the only bounds check (\<open>targetIndex \<ge> len(slice)\<close>) and is equal to no
  loop index: the visitor reports success and returns a fresh slice of the same length with
  the same elements; no nested visit takes place and no existing backing array is written.
\<close>

theorem Slice_negative_index:
  assumes "Atoi seg = Some idx" and "idx < 0" and "valid_slice st a n"
  shows "patchVisitor_Slice rt st (a, n) p (seg @ ''/'' @ rest) =
           (st @ [slice_elems st a n @ replicate (growslice rt n) JNull], JSlice (length st) n, None)"
proof -
  have ns: "CHR ''/'' \<notin> set seg" using assms(1) by (rule Atoi_no_slash)
  have n: "n \<le> length (st ! a)" using assms(3) by (simp add: valid_slice_def)
  have loop: "slice_range visit idx a n 0 st [] = (st, Inr (take n (st ! a)))" for visit
    using slice_range_past_target [of idx 0 n st a visit "[]"] assms(2) n by simp
  show ?thesis
    using assms(1,2) n
    by (simp add: patchVisitor_Slice.simps SplitAfterN2_segment [OF ns] TrimSuffix_segment
        loop make_slice_def slice_elems_def)
qed

definition rt0 :: go_runtime where
  "rt0 = \<lparr>DeepEqual = (\<lambda>st a b. a = b), growslice = (\<lambda>n. 0)\<rparr>"

theorem Slice_negative_index_witness:
  "Atoi ''-1'' = Some (- 1) \<and> (- 1 :: int) < 0 \<and> valid_slice [[JNumber 1, JNumber 2]] 0 2 \<and>
   patchVisitor_Slice rt0 [[JNumber 1, JNumber 2]] (0, 2)
       \<lparr>Operation = ''ObjectAdd'', Path = ''/arr/-1/x'', Value = JNumber 7\<rparr> ''-1/x'' =
     ([[JNumber 1, JNumber 2], [JNumber 1, JNumber 2]], JSlice 1 2, None)"
proof -
  have a: "Atoi ''-1'' = Some (- 1)" by (simp add: Atoi_def digit_of_def)
  have v: "valid_slice [[JNumber 1, JNumber 2]] 0 2" by (simp add: valid_slice_def)
  show ?thesis
    using a v Slice_negative_index [OF a _ v, of rt0 _ "''x''"]
    by (simp add: rt0_def slice_elems_def)
qed


lemma slice_range_after:
  "targetIndex < int i \<Longrightarrow>
   slice_range visit targetIndex a n i st result =
     (st, Inr (result @ map (\<lambda>j. st ! a ! j) [i..<n]))"
proof (induction "n - i" arbitrary: i result)
  case 0
  then show ?case by (simp add: slice_range.simps)
next
  case (Suc d)
  then have lt: "i < n" and d: "d = n - (i + 1)" by auto
  have step: "slice_range visit targetIndex a n i st result =
        slice_range visit targetIndex a n (i + 1) st (result @ [st ! a ! i])"
    using lt Suc.prems by (subst slice_range.simps) simp
  have "targetIndex < int (i + 1)" using Suc.prems by simp
  from Suc.hyps(1) [OF d this]
  have "slice_range visit targetIndex a n (i + 1) st (result @ [st ! a ! i]) =
        (st, Inr ((result @ [st ! a ! i]) @ map (\<lambda>j. st ! a ! j) [i + 1..<n]))" .
  then show ?case using step lt by (simp add: upt_conv_Cons)
qed

lemma slice_range_before:
  "int i \<le> targetIndex \<Longrightarrow> targetIndex < int n \<Longrightarrow>
   slice_range visit targetIndex a n i st result =
     (case visit st (st ! a ! nat targetIndex) of
        (st', updated, Some e) \<Rightarrow> (st', Inl (updated, e))
      | (st', updated, None) \<Rightarrow>
          (st', Inr (result @ map (\<lambda>j. st ! a ! j) [i..<nat targetIndex] @ [updated]
                       @ map (\<lambda>j. st' ! a ! j) [nat targetIndex + 1..<n])))"
proof (induction "nat targetIndex - i" arbitrary: i result)
  case 0
  then have eq: "int i = targetIndex" and lt: "i < n" by auto
  then have i: "nat targetIndex = i" by simp
  show ?case
    using eq lt
    by (subst slice_range.simps)
       (auto simp: i slice_range_after split: prod.splits option.splits)
next
  case (Suc d)
  then have ne: "int i \<noteq> targetIndex" and lt: "i < n" and lt': "i < nat targetIndex"
    and d: "d = nat targetIndex - (i + 1)" and le: "int (i + 1) \<le> targetIndex"
    by auto
  have step: "slice_range visit targetIndex a n i st result =
        slice_range visit targetIndex a n (i + 1) st (result @ [st ! a ! i])"
    using lt ne by (subst slice_range.simps) simp
  show ?case
    unfolding step Suc.hyps(1) [OF d le Suc.prems(2)]
    using lt' by (simp add: upt_conv_Cons split: prod.splits option.splits)
qed

fun nil_error :: "patch_error \<Rightarrow> bool" where
  "nil_error (KeyNotFound k) = False"
| "nil_error InvalidIndex = False"
| "nil_error IndexOutOfBounds = False"
| "nil_error PathEndsInSlice = False"
| "nil_error e = True"

lemma Slice_traverse:
  assumes "cur \<noteq> []" and "Atoi (TrimSuffix (hd (SplitAfterN2 cur))) = Some t"
    and "\<not> int n \<le> t" and "length (SplitAfterN2 cur) \<noteq> 1"
  shows "patchVisitor_Slice rt st (a, n) p cur =
     (if t < 0 then
        (st @ [map (\<lambda>j. st ! a ! j) [0..<n] @ replicate (growslice rt n) JNull], JSlice (length st) n, None)
      else
        (case Accept rt st (st ! a ! nat t) p (SplitAfterN2 cur ! 1) of
           (st', updated, Some e) \<Rightarrow> (st', updated, Some e)
         | (st', updated, None) \<Rightarrow>
             (st' @ [(map (\<lambda>j. st ! a ! j) [0..<nat t] @ [updated]
                        @ map (\<lambda>j. st' ! a ! j) [nat t + 1..<n])
                      @ replicate (growslice rt n) JNull],
              JSlice (length st') n, None)))"
proof (cases "t < 0")
  case True
  then show ?thesis
    using assms
    by (simp add: patchVisitor_Slice.simps slice_range_after make_slice_def)
next
  case False
  then have b: "int 0 \<le> t" "t < int n" using assms(3) by auto
  have len: "nat t + (n - Suc (nat t)) = n - 1" using b by auto
  show ?thesis
    using assms False
    by (simp add: patchVisitor_Slice.simps slice_range_before [OF b] make_slice_def
        split: prod.splits option.splits)
qed

lemma Map_ObjectAdd_existing:
  "Operation p = ''ObjectAdd'' \<Longrightarrow> CHR ''/'' \<notin> set k \<Longrightarrow> fmlookup m k = Some v \<Longrightarrow>
   patchVisitor_Map rt st m p k = (st, JMap m, None)"
  by (simp add: patchVisitor_Map.simps SplitAfterN2_terminal TrimSuffix_terminal)

lemma Map_ObjectAdd_fresh:
  "Operation p = ''ObjectAdd'' \<Longrightarrow> CHR ''/'' \<notin> set k \<Longrightarrow> fmlookup m k = None \<Longrightarrow>
   patchVisitor_Map rt st m p k = (st, JMap (fmupd k (Value p) m), None)"
  by (simp add: patchVisitor_Map.simps SplitAfterN2_terminal TrimSuffix_terminal)

lemma Map_intermediate_missing:
  "CHR ''/'' \<notin> set k \<Longrightarrow> fmlookup m k = None \<Longrightarrow>
   patchVisitor_Map rt st m p (k @ ''/'' @ rest) = (st, JMap m, Some (KeyNotFound k))"
  by (simp add: patchVisitor_Map.simps SplitAfterN2_segment TrimSuffix_segment)

inductive same_json :: "store \<Rightarrow> store \<Rightarrow> json \<Rightarrow> json \<Rightarrow> bool" for st st' where
  same_null: "same_json st st' JNull JNull"
| same_bool: "same_json st st' (JBool b) (JBool b)"
| same_number: "same_json st st' (JNumber x) (JNumber x)"
| same_string: "same_json st st' (JString s) (JString s)"
| same_slice: "valid_slice st a n \<Longrightarrow> valid_slice st' a' n \<Longrightarrow>
     list_all2 (same_json st st') (slice_elems st a n) (slice_elems st' a' n) \<Longrightarrow>
     same_json st st' (JSlice a n) (JSlice a' n)"
| same_map: "fmrel (same_json st st') m m' \<Longrightarrow> same_json st st' (JMap m) (JMap m')"


lemma same_json_sym: "same_json st st' v v' \<Longrightarrow> same_json st' st v' v"
proof (induction rule: same_json.induct)
  case (same_slice a n a' )
  have "list_all2 (\<lambda>x y. same_json st' st y x) (slice_elems st a n) (slice_elems st' a' n)"
    using same_slice.IH by (rule list_all2_mono) simp
  then have "list_all2 (same_json st' st) (slice_elems st' a' n) (slice_elems st a n)"
    by (simp add: list_all2_conv_all_nth)
  then show ?case using same_slice.hyps by (intro same_json.same_slice)
next
  case (same_map m m')
  have "fmrel (\<lambda>x y. same_json st' st y x) m m'"
    using same_map.IH by (rule fmap.rel_mono_strong) simp
  then have "rel_option (same_json st' st) (fmlookup m' x) (fmlookup m x)" for x
    using fmrel_iff [of "\<lambda>x y. same_json st' st y x" m m']
    by (cases "fmlookup m x"; cases "fmlookup m' x") (auto dest!: spec [of _ x])
  then show ?case by (intro same_json.same_map) (simp add: fmrel_iff)
qed (auto intro: same_json.intros)

lemma same_json_trans:
  "same_json s1 s2 u v \<Longrightarrow> same_json s2 s3 v w \<Longrightarrow> same_json s1 s3 u w"
proof (induction arbitrary: w rule: same_json.induct)
  case (same_slice a n a')
  from same_slice.prems obtain a'' where w: "w = JSlice a'' n"
    and v3: "valid_slice s3 a'' n"
    and l23: "list_all2 (same_json s2 s3) (slice_elems s2 a' n) (slice_elems s3 a'' n)"
    by (cases rule: same_json.cases) auto
  have "list_all2 (same_json s1 s3) (slice_elems s1 a n) (slice_elems s3 a'' n)"
    using same_slice.IH l23 by (auto simp: list_all2_conv_all_nth)
  then show ?case unfolding w using same_slice.hyps(1) v3 by (intro same_json.same_slice)
next
  case (same_map m m')
  from same_map.prems obtain m'' where w: "w = JMap m''"
    and r23: "fmrel (same_json s2 s3) m' m''"
    by (cases rule: same_json.cases) auto
  have "rel_option (same_json s1 s3) (fmlookup m x) (fmlookup m'' x)" for x
  proof -
    have a: "rel_option (\<lambda>x y. same_json s1 s2 x y \<and> (\<forall>w. same_json s2 s3 y w \<longrightarrow> same_json s1 s3 x w))
        (fmlookup m x) (fmlookup m' x)"
      using same_map.IH by (simp add: fmrel_iff)
    have b: "rel_option (same_json s2 s3) (fmlookup m' x) (fmlookup m'' x)"
      using r23 by (simp add: fmrel_iff)
    show ?thesis
      using a b
      by (cases "fmlookup m x"; cases "fmlookup m' x"; cases "fmlookup m'' x") auto
  qed
  then show ?case unfolding w by (intro same_json.same_map) (simp add: fmrel_iff)
qed (auto elim: same_json.cases intro: same_json.intros)

lemma valid_slice_append: "valid_slice st a n \<Longrightarrow> valid_slice (st @ e) a n"
  by (simp add: valid_slice_def nth_append)

lemma slice_elems_append: "valid_slice st a n \<Longrightarrow> slice_elems (st @ e) a n = slice_elems st a n"
  by (simp add: valid_slice_def slice_elems_def nth_append)

lemma same_json_ext:
  "same_json st st' v v' \<Longrightarrow> same_json (st @ e) (st' @ e') v v'"
proof (induction rule: same_json.induct)
  case (same_slice a n a')
  have "list_all2 (same_json (st @ e) (st' @ e')) (slice_elems st a n) (slice_elems st' a' n)"
    using same_slice.IH by (rule list_all2_mono) simp
  then show ?case
    using same_slice.hyps
    by (intro same_json.same_slice) (simp_all add: valid_slice_append slice_elems_append)
next
  case (same_map m m')
  have "fmrel (same_json (st @ e) (st' @ e')) m m'"
    using same_map.IH by (rule fmap.rel_mono_strong) simp
  then show ?case by (rule same_json.same_map)
qed (auto intro: same_json.intros)

lemma same_json_ext_right: "same_json st st' v v' \<Longrightarrow> same_json st (st' @ e') v v'"
  using same_json_ext [of st st' v v' "[]" e'] by simp

lemma same_json_ext_left: "same_json st st' v v' \<Longrightarrow> same_json (st @ e) st' v v'"
  using same_json_ext [of st st' v v' e "[]"] by simp

definition closed_json :: "store \<Rightarrow> json \<Rightarrow> bool" where
  "closed_json st v \<longleftrightarrow> same_json st st v v"

lemma same_json_closed_left: "same_json st st' v v' \<Longrightarrow> closed_json st v"
  unfolding closed_json_def by (blast intro: same_json_trans same_json_sym)

lemma same_json_closed_right: "same_json st st' v v' \<Longrightarrow> closed_json st' v'"
  unfolding closed_json_def by (blast intro: same_json_trans same_json_sym)

lemma same_json_restrict_left:
  "same_json (st @ e) st' v v' \<Longrightarrow> closed_json st v \<Longrightarrow> same_json st st' v v'"
  unfolding closed_json_def
  by (blast intro: same_json_trans same_json_ext_right)

lemma closed_json_ext: "closed_json st v \<Longrightarrow> same_json st (st @ e) v v"
  unfolding closed_json_def by (rule same_json_ext_right)

lemma closed_json_append: "closed_json st v \<Longrightarrow> closed_json (st @ e) v"
  unfolding closed_json_def by (rule same_json_ext)

lemma closed_json_MapD:
  "closed_json st (JMap m) \<Longrightarrow> fmlookup m k = Some v \<Longrightarrow> closed_json st v"
  unfolding closed_json_def
  by (erule same_json.cases) (auto simp: fmrel_iff dest!: spec [of _ k])

lemma closed_json_SliceD:
  "closed_json st (JSlice a n) \<Longrightarrow> valid_slice st a n \<and> (\<forall>i<n. closed_json st (st ! a ! i))"
  unfolding closed_json_def
  by (erule same_json.cases) (auto simp: list_all2_conv_all_nth slice_elems_def valid_slice_def)


text \<open>
  The successful runs of the visitor for an \<^verbatim>\<open>ObjectAdd\<close> patch, as a relation: the
  two terminal cases at a map, the step through a map key, the step past a slice whose index
  is negative, and the step through a slice element.
\<close>

inductive ObjectAdd_run :: "go_runtime \<Rightarrow> Patch \<Rightarrow> store \<Rightarrow> json \<Rightarrow> string \<Rightarrow> store \<Rightarrow> json \<Rightarrow> bool"
  for rt p where
  run_existing:
    "length (SplitAfterN2 cur) = 1 \<Longrightarrow> fmlookup m (TrimSuffix (hd (SplitAfterN2 cur))) = Some x \<Longrightarrow>
     ObjectAdd_run rt p st (JMap m) cur st (JMap m)"
| run_fresh:
    "length (SplitAfterN2 cur) = 1 \<Longrightarrow> k = TrimSuffix (hd (SplitAfterN2 cur)) \<Longrightarrow>
     fmlookup m k = None \<Longrightarrow>
     ObjectAdd_run rt p st (JMap m) cur st (JMap (fmupd k (Value p) m))"
| run_map:
    "length (SplitAfterN2 cur) \<noteq> 1 \<Longrightarrow> k = TrimSuffix (hd (SplitAfterN2 cur)) \<Longrightarrow>
     fmlookup m k = Some val \<Longrightarrow>
     ObjectAdd_run rt p st val (SplitAfterN2 cur ! 1) st' updated \<Longrightarrow>
     ObjectAdd_run rt p st (JMap m) cur st' (JMap (fmupd k updated m))"
| run_skip:
    "cur \<noteq> [] \<Longrightarrow> Atoi (TrimSuffix (hd (SplitAfterN2 cur))) = Some t \<Longrightarrow> t < 0 \<Longrightarrow>
     length (SplitAfterN2 cur) \<noteq> 1 \<Longrightarrow>
     ObjectAdd_run rt p st (JSlice a n) cur
       (st @ [map (\<lambda>j. st ! a ! j) [0..<n] @ replicate (growslice rt n) JNull])
       (JSlice (length st) n)"
| run_slice:
    "cur \<noteq> [] \<Longrightarrow> Atoi (TrimSuffix (hd (SplitAfterN2 cur))) = Some t \<Longrightarrow> 0 \<le> t \<Longrightarrow>
     t < int n \<Longrightarrow> length (SplitAfterN2 cur) \<noteq> 1 \<Longrightarrow>
     ObjectAdd_run rt p st (st ! a ! nat t) (SplitAfterN2 cur ! 1) st' updated \<Longrightarrow>
     ObjectAdd_run rt p st (JSlice a n) cur
       (st' @ [(map (\<lambda>j. st ! a ! j) [0..<nat t] @ [updated]
                 @ map (\<lambda>j. st' ! a ! j) [nat t + 1..<n]) @ replicate (growslice rt n) JNull])
       (JSlice (length st') n)"

lemma ObjectAdd_run_Accept:
  assumes op: "Operation p = ''ObjectAdd''"
  shows "ObjectAdd_run rt p st v cur st' r \<Longrightarrow> Accept rt st v p cur = (st', r, None)"
proof (induction rule: ObjectAdd_run.induct)
  case (run_existing cur m x st)
  then show ?case using op by (simp add: Accept.simps patchVisitor_Map.simps)
next
  case (run_fresh cur k m st)
  then show ?case using op by (simp add: Accept.simps patchVisitor_Map.simps)
next
  case (run_map cur k m val st st' updated)
  then show ?case using op by (simp add: Accept.simps patchVisitor_Map.simps)
next
  case (run_skip cur t st a n)
  then have "\<not> int n \<le> t" by simp
  from Slice_traverse [OF run_skip(1,2) this run_skip(4), of rt st a p] run_skip(3)
  show ?case by (simp add: Accept.simps)
next
  case (run_slice cur t n st a st' updated)
  then have "\<not> int n \<le> t" by simp
  from Slice_traverse [OF run_slice(1,2) this run_slice(5), of rt st a p] run_slice(3,7)
  show ?case by (simp add: Accept.simps)
qed

lemma Accept_ObjectAdd_run:
  "Operation p = ''ObjectAdd'' \<Longrightarrow> Accept rt st v p cur = (st', r, None) \<Longrightarrow>
     ObjectAdd_run rt p st v cur st' r"
  and "Operation p = ''ObjectAdd'' \<Longrightarrow> patchVisitor_Map rt st m p cur = (st', r, None) \<Longrightarrow>
     ObjectAdd_run rt p st (JMap m) cur st' r"
  and "Operation p = ''ObjectAdd'' \<Longrightarrow> patchVisitor_Slice rt st sl p cur = (st', r, None) \<Longrightarrow>
     ObjectAdd_run rt p st (JSlice (fst sl) (snd sl)) cur st' r"
proof (induction rt st v p cur and rt st m p cur and rt st sl p cur
    arbitrary: st' r and st' r and st' r
    rule: Accept_patchVisitor_Map_patchVisitor_Slice.induct)
  case (1 rt st v p cur)
  then show ?case by (cases v) (auto simp: Accept.simps)
next
  case (2 rt st m p cur)
  show ?case
  proof (cases "length (SplitAfterN2 cur) = 1")
    case True
    then show ?thesis
      using "2.prems"
      by (auto simp: patchVisitor_Map.simps Let_def split: option.splits
          intro: ObjectAdd_run.run_existing ObjectAdd_run.run_fresh)
  next
    case False
    then have n1: "\<not> (length (SplitAfterN2 cur) = 1 \<and> Operation p = ''ObjectAdd'')" by simp
    from "2.prems" False obtain val updated where
      lk: "fmlookup m (TrimSuffix (hd (SplitAfterN2 cur))) = Some val"
      and acc: "Accept rt st val p (SplitAfterN2 cur ! 1) = (st', updated, None)"
      and r: "r = JMap (fmupd (TrimSuffix (hd (SplitAfterN2 cur))) updated m)"
      by (auto simp: patchVisitor_Map.simps Let_def split: option.splits prod.splits)
    have "ObjectAdd_run rt p st val (SplitAfterN2 cur ! 1) st' updated"
      using "2.IH" [OF refl refl n1 lk "2.prems"(1)] acc False by simp
    then show ?thesis unfolding r using False lk by (intro ObjectAdd_run.run_map) auto
  qed
next
  case (3 rt st sl p cur)
  obtain a n where sl: "sl = (a, n)" by (cases sl)
  have op: "Operation p = ''ObjectAdd''" by (rule "3.prems"(1))
  have run: "patchVisitor_Slice rt st (a, n) p cur = (st', r, None)"
    using "3.prems"(2) by (simp add: sl)
  have ne: "cur \<noteq> []" using run op by (auto simp: patchVisitor_Slice.simps)
  obtain t where t: "Atoi (TrimSuffix (hd (SplitAfterN2 cur))) = Some t"
    using run op ne by (auto simp: patchVisitor_Slice.simps Let_def split: option.splits)
  have c: "\<not> int n \<le> t" "length (SplitAfterN2 cur) \<noteq> 1"
    using run op ne t by (auto simp: patchVisitor_Slice.simps Let_def split: if_splits)
  note tr = Slice_traverse [OF ne t c, of rt st a p]
  show ?case
  proof (cases "t < 0")
    case True
    then show ?thesis
      using run tr ne t c by (auto simp: sl intro: ObjectAdd_run.run_skip)
  next
    case False
    then obtain updated s1 where
      acc: "Accept rt st (st ! a ! nat t) p (SplitAfterN2 cur ! 1) = (s1, updated, None)"
      and res: "st' = s1 @ [(map (\<lambda>j. st ! a ! j) [0..<nat t] @ [updated]
                 @ map (\<lambda>j. s1 ! a ! j) [nat t + 1..<n]) @ replicate (growslice rt n) JNull]"
               "r = JSlice (length s1) n"
      using run tr by (auto split: prod.splits option.splits)
    have a: "a = fst sl" and n: "n = snd sl" by (simp_all add: sl)
    have na: "\<not> (Operation p = ''ArrayAdd'' \<and> cur = [])"
      and nr: "\<not> (Operation p = ''ArrayRemove'' \<and> cur = [])" using ne by simp_all
    have run1: "ObjectAdd_run rt p st (st ! a ! nat t) (SplitAfterN2 cur ! 1) s1 updated"
      by (rule "3.IH" [OF a n na nr ne refl refl t _ c(2) op acc]) (use c n in simp)
    have t0: "0 \<le> t" and tn: "t < int n" using False c by auto
    from ObjectAdd_run.run_slice [OF ne t t0 tn c(2) run1]
    show ?thesis by (simp add: res sl)
  qed
qed

lemma ObjectAdd_run_extends:
  "ObjectAdd_run rt p st v cur st' r \<Longrightarrow> \<exists>ext. st' = st @ ext"
  by (induction rule: ObjectAdd_run.induct) auto


lemma closed_json_MapI:
  "(\<And>k v. fmlookup m k = Some v \<Longrightarrow> closed_json st v) \<Longrightarrow> closed_json st (JMap m)"
  unfolding closed_json_def
proof (intro same_json.same_map)
  assume a: "\<And>k v. fmlookup m k = Some v \<Longrightarrow> same_json st st v v"
  have "rel_option (same_json st st) (fmlookup m x) (fmlookup m x)" for x
    using a [of x] by (cases "fmlookup m x") auto
  then show "fmrel (same_json st st) m m" by (simp add: fmrel_iff)
qed

lemma closed_json_SliceI:
  "valid_slice st a n \<Longrightarrow> (\<And>i. i < n \<Longrightarrow> closed_json st (st ! a ! i)) \<Longrightarrow>
   closed_json st (JSlice a n)"
  unfolding closed_json_def
  by (intro same_json.same_slice)
     (auto simp: list_all2_conv_all_nth slice_elems_def valid_slice_def)

lemma same_json_MapI:
  "(\<And>x. rel_option (same_json st st') (fmlookup m x) (fmlookup m' x)) \<Longrightarrow>
   same_json st st' (JMap m) (JMap m')"
  by (intro same_json.same_map) (simp add: fmrel_iff)

lemma same_json_MapE:
  assumes "same_json st st' (JMap m) v'"
  obtains m' where "v' = JMap m'"
    and "\<And>x. rel_option (same_json st st') (fmlookup m x) (fmlookup m' x)"
  using assms by (cases rule: same_json.cases) (auto simp: fmrel_iff)

lemma same_json_SliceE:
  assumes "same_json st st' (JSlice a n) v'"
  obtains a' where "v' = JSlice a' n" and "valid_slice st a n" and "valid_slice st' a' n"
    and "\<And>i. i < n \<Longrightarrow> same_json st st' (st ! a ! i) (st' ! a' ! i)"
  using assms
  by (cases rule: same_json.cases)
     (auto simp: list_all2_conv_all_nth slice_elems_def valid_slice_def)

lemma same_json_SliceI:
  "valid_slice st a n \<Longrightarrow> valid_slice st' a' n \<Longrightarrow>
   (\<And>i. i < n \<Longrightarrow> same_json st st' (st ! a ! i) (st' ! a' ! i)) \<Longrightarrow>
   same_json st st' (JSlice a n) (JSlice a' n)"
  by (intro same_json.same_slice)
     (auto simp: list_all2_conv_all_nth slice_elems_def valid_slice_def)

text \<open>The array that a traversal of a slice builds, cell by cell.\<close>

lemma rebuilt_nth:
  assumes "i < n" and "k < n"
  shows "(map f [0..<k] @ u # map g [Suc k..<n] @ pad) ! i =
           (if i < k then f i else if i = k then u else g i)"
proof -
  consider "i < k" | "i = k" | "k < i" by linarith
  then show ?thesis
  proof cases
    case 1
    then show ?thesis by (simp add: nth_append)
  next
    case 2
    then show ?thesis by (simp add: nth_append)
  next
    case 3
    then obtain d where d: "i = Suc k + d" using less_iff_Suc_add by auto
    have "(map f [0..<k] @ u # map g [Suc k..<n] @ pad) ! i = (map g [Suc k..<n] @ pad) ! d"
      using 3 by (simp add: nth_append d)
    also have "\<dots> = g (Suc k + d)"
      using assms(1) by (auto simp: nth_append d)
    finally show ?thesis using 3 d by simp
  qed
qed

lemma copied_nth:
  "i < n \<Longrightarrow> (map f [0..<n] @ pad) ! i = f i"
  by (simp add: nth_append)

lemma ObjectAdd_run_closed:
  "ObjectAdd_run rt p st v cur st' r \<Longrightarrow> closed_json st v \<Longrightarrow> closed_json st (Value p) \<Longrightarrow>
   closed_json st' r"
proof (induction rule: ObjectAdd_run.induct)
  case (run_existing cur m x st)
  then show ?case by simp
next
  case (run_fresh cur k m st)
  show ?case
  proof (rule closed_json_MapI)
    fix x v assume "fmlookup (fmupd k (Value p) m) x = Some v"
    then show "closed_json st v"
      using run_fresh.prems closed_json_MapD [of st m x v] by (auto split: if_splits)
  qed
next
  case (run_map cur k m val st st' updated)
  from ObjectAdd_run_extends [OF run_map.hyps(4)] obtain ext where ext: "st' = st @ ext" ..
  have val: "closed_json st val" using run_map.prems(1) run_map.hyps(3) by (rule closed_json_MapD)
  have up: "closed_json st' updated" using run_map.IH val run_map.prems(2) by simp
  show ?case
  proof (rule closed_json_MapI)
    fix x v assume "fmlookup (fmupd k updated m) x = Some v"
    then show "closed_json st' v"
      using up closed_json_MapD [OF run_map.prems(1), of x v] closed_json_append [of st v ext]
      by (auto simp: ext split: if_splits)
  qed
next
  case (run_skip cur t st a n)
  let ?arr = "map (\<lambda>j. st ! a ! j) [0..<n] @ replicate (growslice rt n) JNull"
  from closed_json_SliceD [OF run_skip.prems(1)]
  have v: "valid_slice st a n" and el: "\<And>i. i < n \<Longrightarrow> closed_json st (st ! a ! i)" by auto
  show ?case
  proof (rule closed_json_SliceI)
    show "valid_slice (st @ [?arr]) (length st) n" by (simp add: valid_slice_def)
    fix i assume i: "i < n"
    have "(st @ [?arr]) ! length st ! i = st ! a ! i" using i by (simp add: nth_append)
    then show "closed_json (st @ [?arr]) ((st @ [?arr]) ! length st ! i)"
      using closed_json_append [OF el [OF i]] by simp
  qed
next
  case (run_slice cur t n st a st' updated)
  let ?arr = "(map (\<lambda>j. st ! a ! j) [0..<nat t] @ [updated]
                 @ map (\<lambda>j. st' ! a ! j) [nat t + 1..<n]) @ replicate (growslice rt n) JNull"
  from ObjectAdd_run_extends [OF run_slice.hyps(6)] obtain ext where ext: "st' = st @ ext" ..
  from closed_json_SliceD [OF run_slice.prems(1)]
  have v: "valid_slice st a n" and el: "\<And>i. i < n \<Longrightarrow> closed_json st (st ! a ! i)" by auto
  have tn: "nat t < n" using run_slice.hyps(3,4) by simp
  have up: "closed_json st' updated" using run_slice.IH el [OF tn] run_slice.prems(2) by simp
  have same_arr: "st' ! a = st ! a" using v by (simp add: ext valid_slice_def nth_append)
  show ?case
  proof (rule closed_json_SliceI)
    show "valid_slice (st' @ [?arr]) (length st') n" using tn by (simp add: valid_slice_def)
    fix i assume i: "i < n"
    have nth: "(st' @ [?arr]) ! length st' ! i =
        (if i < nat t then st ! a ! i else if i = nat t then updated else st' ! a ! i)"
      by (simp add: rebuilt_nth [OF i tn])
    have "closed_json (st' @ [?arr]) (st ! a ! i)"
      using closed_json_append [OF el [OF i], of "ext @ [?arr]"] by (simp add: ext)
    moreover have "closed_json (st' @ [?arr]) updated" using up by (rule closed_json_append)
    ultimately show "closed_json (st' @ [?arr]) ((st' @ [?arr]) ! length st' ! i)"
      unfolding nth by (simp add: same_arr)
  qed
qed


lemma ObjectAdd_run_again:
  "ObjectAdd_run rt p st v cur st' r \<Longrightarrow> closed_json st v \<Longrightarrow> closed_json st (Value p) \<Longrightarrow>
   same_json st' st2 r v2 \<Longrightarrow>
   \<exists>st2' r2. ObjectAdd_run rt p st2 v2 cur st2' r2 \<and> same_json st2 st2' v2 r2"
proof (induction arbitrary: st2 v2 rule: ObjectAdd_run.induct)
  case (run_existing cur m x st)
  from run_existing.prems(3) obtain m2 where v2: "v2 = JMap m2"
    and rel: "\<And>y. rel_option (same_json st st2) (fmlookup m y) (fmlookup m2 y)"
    by (rule same_json_MapE) auto
  from rel [of "TrimSuffix (hd (SplitAfterN2 cur))"] run_existing.hyps(2)
  obtain x2 where "fmlookup m2 (TrimSuffix (hd (SplitAfterN2 cur))) = Some x2"
    by (cases "fmlookup m2 (TrimSuffix (hd (SplitAfterN2 cur)))") auto
  then have "ObjectAdd_run rt p st2 (JMap m2) cur st2 (JMap m2)"
    by (rule ObjectAdd_run.run_existing [OF run_existing.hyps(1)])
  moreover have "same_json st2 st2 v2 v2"
    using same_json_closed_right [OF run_existing.prems(3)] by (simp add: closed_json_def)
  ultimately show ?case unfolding v2 by blast
next
  case (run_fresh cur k m st)
  from run_fresh.prems(3) obtain m2 where v2: "v2 = JMap m2"
    and rel: "\<And>y. rel_option (same_json st st2) (fmlookup (fmupd k (Value p) m) y) (fmlookup m2 y)"
    by (rule same_json_MapE) auto
  from rel [of k] obtain x2 where "fmlookup m2 k = Some x2"
    by (cases "fmlookup m2 k") auto
  then have "ObjectAdd_run rt p st2 (JMap m2) cur st2 (JMap m2)"
    unfolding run_fresh.hyps(2) by (rule ObjectAdd_run.run_existing [OF run_fresh.hyps(1)])
  moreover have "same_json st2 st2 v2 v2"
    using same_json_closed_right [OF run_fresh.prems(3)] by (simp add: closed_json_def)
  ultimately show ?case unfolding v2 by blast
next
  case (run_map cur k m val st st' updated)
  from run_map.prems(3) obtain m2 where v2: "v2 = JMap m2"
    and rel: "\<And>y. rel_option (same_json st' st2) (fmlookup (fmupd k updated m) y) (fmlookup m2 y)"
    by (rule same_json_MapE) auto
  from rel [of k] obtain u2 where lk2: "fmlookup m2 k = Some u2"
    and su: "same_json st' st2 updated u2"
    by (cases "fmlookup m2 k") auto
  have val: "closed_json st val" using run_map.prems(1) run_map.hyps(3) by (rule closed_json_MapD)
  from run_map.IH [OF val run_map.prems(2) su] obtain st2' r2 where
    run2: "ObjectAdd_run rt p st2 u2 (SplitAfterN2 cur ! 1) st2' r2"
    and s2: "same_json st2 st2' u2 r2" by blast
  from ObjectAdd_run_extends [OF run2] obtain ext where ext: "st2' = st2 @ ext" ..
  have c2: "closed_json st2 (JMap m2)"
    using same_json_closed_right [OF run_map.prems(3)] by (simp add: v2)
  have "ObjectAdd_run rt p st2 (JMap m2) cur st2' (JMap (fmupd k r2 m2))"
    by (rule ObjectAdd_run.run_map [OF run_map.hyps(1,2) lk2 run2])
  moreover have "same_json st2 st2' (JMap m2) (JMap (fmupd k r2 m2))"
  proof (rule same_json_MapI)
    fix y
    show "rel_option (same_json st2 st2') (fmlookup m2 y) (fmlookup (fmupd k r2 m2) y)"
    proof (cases "y = k")
      case True
      then show ?thesis using lk2 s2 by simp
    next
      case False
      then show ?thesis
        using closed_json_ext [OF closed_json_MapD [OF c2], of y _ ext]
        by (cases "fmlookup m2 y") (auto simp: ext)
    qed
  qed
  ultimately show ?case unfolding v2 by blast
next
  case (run_skip cur t st a n)
  let ?st' = "st @ [map (\<lambda>j. st ! a ! j) [0..<n] @ replicate (growslice rt n) JNull]"
  from run_skip.prems(3) obtain a2 where v2: "v2 = JSlice a2 n"
    and val2: "valid_slice st2 a2 n" by (rule same_json_SliceE) auto
  let ?arr2 = "map (\<lambda>j. st2 ! a2 ! j) [0..<n] @ replicate (growslice rt n) JNull"
  have c2: "closed_json st2 (JSlice a2 n)"
    using same_json_closed_right [OF run_skip.prems(3)] by (simp add: v2)
  have "ObjectAdd_run rt p st2 (JSlice a2 n) cur (st2 @ [?arr2]) (JSlice (length st2) n)"
    by (rule ObjectAdd_run.run_skip [OF run_skip.hyps])
  moreover have "same_json st2 (st2 @ [?arr2]) (JSlice a2 n) (JSlice (length st2) n)"
  proof (rule same_json_SliceI)
    show "valid_slice st2 a2 n" by (rule val2)
    show "valid_slice (st2 @ [?arr2]) (length st2) n" by (simp add: valid_slice_def)
    fix i assume i: "i < n"
    have "(st2 @ [?arr2]) ! length st2 ! i = st2 ! a2 ! i" using i by (simp add: nth_append)
    then show "same_json st2 (st2 @ [?arr2]) (st2 ! a2 ! i) ((st2 @ [?arr2]) ! length st2 ! i)"
      using closed_json_ext [of st2 "st2 ! a2 ! i" "[?arr2]"] closed_json_SliceD [OF c2] i
      by simp
  qed
  ultimately show ?case unfolding v2 by blast
next
  case (run_slice cur t n st a st' updated)
  let ?arr = "(map (\<lambda>j. st ! a ! j) [0..<nat t] @ [updated]
                 @ map (\<lambda>j. st' ! a ! j) [nat t + 1..<n]) @ replicate (growslice rt n) JNull"
  have tn: "nat t < n" using run_slice.hyps(3,4) by simp
  from run_slice.prems(3) obtain a2 where v2: "v2 = JSlice a2 n"
    and val2: "valid_slice st2 a2 n"
    and el2: "\<And>i. i < n \<Longrightarrow> same_json (st' @ [?arr]) st2 ((st' @ [?arr]) ! length st' ! i) (st2 ! a2 ! i)"
    by (rule same_json_SliceE) auto
  have "(st' @ [?arr]) ! length st' ! nat t = updated"
    by (simp add: rebuilt_nth [OF tn tn])
  with el2 [OF tn] have su': "same_json (st' @ [?arr]) st2 updated (st2 ! a2 ! nat t)" by simp
  from closed_json_SliceD [OF run_slice.prems(1)]
  have el: "\<And>i. i < n \<Longrightarrow> closed_json st (st ! a ! i)" by auto
  have up: "closed_json st' updated"
    using ObjectAdd_run_closed [OF run_slice.hyps(6) el [OF tn] run_slice.prems(2)] .
  have su: "same_json st' st2 updated (st2 ! a2 ! nat t)"
    using su' up by (rule same_json_restrict_left)
  from run_slice.IH [OF el [OF tn] run_slice.prems(2) su] obtain st2' r2 where
    run2: "ObjectAdd_run rt p st2 (st2 ! a2 ! nat t) (SplitAfterN2 cur ! 1) st2' r2"
    and s2: "same_json st2 st2' (st2 ! a2 ! nat t) r2" by blast
  from ObjectAdd_run_extends [OF run2] obtain ext where ext: "st2' = st2 @ ext" ..
  let ?arr2 = "(map (\<lambda>j. st2 ! a2 ! j) [0..<nat t] @ [r2]
                 @ map (\<lambda>j. st2' ! a2 ! j) [nat t + 1..<n]) @ replicate (growslice rt n) JNull"
  have c2: "closed_json st2 (JSlice a2 n)"
    using same_json_closed_right [OF run_slice.prems(3)] by (simp add: v2)
  have same_arr: "st2' ! a2 = st2 ! a2" using val2 by (simp add: ext valid_slice_def nth_append)
  have "ObjectAdd_run rt p st2 (JSlice a2 n) cur (st2' @ [?arr2]) (JSlice (length st2') n)"
    by (rule ObjectAdd_run.run_slice [OF run_slice.hyps(1,2,3,4,5) run2])
  moreover have "same_json st2 (st2' @ [?arr2]) (JSlice a2 n) (JSlice (length st2') n)"
  proof (rule same_json_SliceI)
    show "valid_slice st2 a2 n" by (rule val2)
    show "valid_slice (st2' @ [?arr2]) (length st2') n" using tn by (simp add: valid_slice_def)
    fix i assume i: "i < n"
    have nth: "(st2' @ [?arr2]) ! length st2' ! i =
        (if i < nat t then st2 ! a2 ! i else if i = nat t then r2 else st2' ! a2 ! i)"
      by (simp add: rebuilt_nth [OF i tn])
    have other: "same_json st2 (st2' @ [?arr2]) (st2 ! a2 ! i) (st2 ! a2 ! i)"
      using closed_json_ext [of st2 "st2 ! a2 ! i" "ext @ [?arr2]"] closed_json_SliceD [OF c2] i
      by (simp add: ext)
    have target: "same_json st2 (st2' @ [?arr2]) (st2 ! a2 ! nat t) r2"
      using s2 by (rule same_json_ext_right)
    show "same_json st2 (st2' @ [?arr2]) (st2 ! a2 ! i) ((st2' @ [?arr2]) ! length st2' ! i)"
      unfolding nth using other target by (auto simp: same_arr)
  qed
  ultimately show ?case unfolding v2 by blast
qed

text \<open>
  C7. \<^verbatim>\<open>ObjectAdd\<close> at a JSON object: an existing terminal key leaves the object as it
  is, a missing terminal key is added with the patch value, a missing intermediate key is the
  error "key not found". Hence an \<^verbatim>\<open>ObjectAdd\<close> patch that has succeeded succeeds again
  on its own result and returns a document deeply equal to it. (Values are finite trees:
  \<open>closed_json\<close> says that every slice header reachable from the value is within its backing
  array.)
\<close>

theorem ObjectAdd_idempotent:
  assumes "Operation p = ''ObjectAdd''"
  shows "(CHR ''/'' \<notin> set k \<and> fmlookup m k \<noteq> None \<longrightarrow>
            patchVisitor_Map rt st m p k = (st, JMap m, None)) \<and>
         (CHR ''/'' \<notin> set k \<and> fmlookup m k = None \<longrightarrow>
            patchVisitor_Map rt st m p k = (st, JMap (fmupd k (Value p) m), None)) \<and>
         (CHR ''/'' \<notin> set k \<and> fmlookup m k = None \<longrightarrow>
            patchVisitor_Map rt st m p (k @ ''/'' @ rest) = (st, JMap m, Some (KeyNotFound k))) \<and>
         (closed_json st d \<and> closed_json st (Value p) \<and> ApplyPatch rt st d p = (st', d', None) \<longrightarrow>
            (\<exists>st'' d''. ApplyPatch rt st' d' p = (st'', d'', None) \<and> same_json st' st'' d' d''))"
proof (intro conjI impI)
  assume "CHR ''/'' \<notin> set k \<and> fmlookup m k \<noteq> None"
  then show "patchVisitor_Map rt st m p k = (st, JMap m, None)"
    using Map_ObjectAdd_existing [OF assms, of k m _ rt st] by auto
next
  assume "CHR ''/'' \<notin> set k \<and> fmlookup m k = None"
  then show "patchVisitor_Map rt st m p k = (st, JMap (fmupd k (Value p) m), None)"
    using Map_ObjectAdd_fresh [OF assms, of k m rt st] by auto
next
  assume "CHR ''/'' \<notin> set k \<and> fmlookup m k = None"
  then show "patchVisitor_Map rt st m p (k @ ''/'' @ rest) = (st, JMap m, Some (KeyNotFound k))"
    using Map_intermediate_missing [of k m rt st p rest] by auto
next
  assume a: "closed_json st d \<and> closed_json st (Value p) \<and> ApplyPatch rt st d p = (st', d', None)"
  then obtain cur where cur: "new_visitor p = Inr cur"
    and acc: "Accept rt st d p cur = (st', d', None)"
    by (cases "new_visitor p") (auto simp: ApplyPatch_def)
  have run: "ObjectAdd_run rt p st d cur st' d'" using assms acc by (rule Accept_ObjectAdd_run(1))
  have cl: "closed_json st' d'" using ObjectAdd_run_closed [OF run] a by simp
  from ObjectAdd_run_again [OF run _ _ cl [unfolded closed_json_def]] a
  obtain st'' d'' where run2: "ObjectAdd_run rt p st' d' cur st'' d''"
    and s: "same_json st' st'' d' d''" by blast
  have "ApplyPatch rt st' d' p = (st'', d'', None)"
    using ObjectAdd_run_Accept [OF assms run2] cur by (simp add: ApplyPatch_def)
  then show "\<exists>st'' d''. ApplyPatch rt st' d' p = (st'', d'', None) \<and> same_json st' st'' d' d''"
    using s by blast
qed


lemma closed_json_scalar [simp]:
  "closed_json st JNull" "closed_json st (JBool b)" "closed_json st (JNumber x)"
  "closed_json st (JString s)"
  by (simp_all add: closed_json_def same_json.intros)

theorem ObjectAdd_idempotent_witness:
  "Operation \<lparr>Operation = ''ObjectAdd'', Path = ''/arr/0/x'', Value = JNumber 7\<rparr> = ''ObjectAdd'' \<and>
   closed_json [[JMap fmempty]] (JMap (fmupd ''arr'' (JSlice 0 1) fmempty)) \<and>
   closed_json [[JMap fmempty]] (JNumber 7) \<and>
   ApplyPatch rt0 [[JMap fmempty]] (JMap (fmupd ''arr'' (JSlice 0 1) fmempty))
       \<lparr>Operation = ''ObjectAdd'', Path = ''/arr/0/x'', Value = JNumber 7\<rparr> =
     ([[JMap fmempty], [JMap (fmupd ''x'' (JNumber 7) fmempty)]],
      JMap (fmupd ''arr'' (JSlice 1 1) fmempty), None) \<and>
   (\<exists>st'' d''.
      ApplyPatch rt0 [[JMap fmempty], [JMap (fmupd ''x'' (JNumber 7) fmempty)]]
          (JMap (fmupd ''arr'' (JSlice 1 1) fmempty))
          \<lparr>Operation = ''ObjectAdd'', Path = ''/arr/0/x'', Value = JNumber 7\<rparr> = (st'', d'', None) \<and>
      same_json [[JMap fmempty], [JMap (fmupd ''x'' (JNumber 7) fmempty)]] st''
        (JMap (fmupd ''arr'' (JSlice 1 1) fmempty)) d'')"
proof -
  let ?p = "\<lparr>Operation = ''ObjectAdd'', Path = ''/arr/0/x'', Value = JNumber 7\<rparr>"
  let ?st = "[[JMap fmempty]]"
  let ?d = "JMap (fmupd ''arr'' (JSlice 0 1) fmempty)"
  have op: "Operation ?p = ''ObjectAdd''" by simp
  have c0: "closed_json ?st (JMap fmempty)" by (rule closed_json_MapI) simp
  have c1: "closed_json ?st (JSlice 0 1)"
    by (rule closed_json_SliceI) (simp_all add: valid_slice_def c0)
  have cd: "closed_json ?st ?d"
    using c1 by (intro closed_json_MapI) (auto split: if_splits)
  have cv: "closed_json ?st (JNumber 7)" by simp
  have a0: "Atoi ''0'' = Some 0" by (simp add: Atoi_def digit_of_def)
  have ev: "ApplyPatch rt0 ?st ?d ?p =
     ([[JMap fmempty], [JMap (fmupd ''x'' (JNumber 7) fmempty)]],
      JMap (fmupd ''arr'' (JSlice 1 1) fmempty), None)"
    by (simp add: ApplyPatch_def new_visitor_def CutPrefix_def Accept.simps
        patchVisitor_Map.simps patchVisitor_Slice.simps SplitAfterN2_def TrimSuffix_def a0
        slice_range.simps make_slice_def rt0_def)
  from ObjectAdd_idempotent [OF op, of "''k''" fmempty rt0 ?st "''r''" ?d _ _]
  have "closed_json ?st ?d \<and> closed_json ?st (Value ?p) \<and> ApplyPatch rt0 ?st ?d ?p = (st', d', None) \<longrightarrow>
        (\<exists>st'' d''. ApplyPatch rt0 st' d' ?p = (st'', d'', None) \<and> same_json st' st'' d' d'')"
    for st' d' by blast
  from this [of "[[JMap fmempty], [JMap (fmupd ''x'' (JNumber 7) fmempty)]]"
      "JMap (fmupd ''arr'' (JSlice 1 1) fmempty)"] cd cv ev
  show ?thesis by simp
qed


subsection \<open>What a patch does to its input\<close>

text \<open>
  \<open>inside st d v\<close>: the value \<open>v\<close> is \<open>d\<close> or is reached from \<open>d\<close> through member values
  and array elements, read in the store \<open>st\<close>.
\<close>

inductive inside :: "store \<Rightarrow> json \<Rightarrow> json \<Rightarrow> bool" for st where
  inside_self: "inside st v v"
| inside_member: "fmlookup m k = Some v \<Longrightarrow> inside st v r \<Longrightarrow> inside st (JMap m) r"
| inside_element: "i < n \<Longrightarrow> inside st (st ! a ! i) r \<Longrightarrow> inside st (JSlice a n) r"

text \<open>
  What each error comes with: "Key k not found in map" with an object that has no key \<open>k\<close>;
  "invalid index", "index out of bounds" and "path ends in slice" with an array; every other
  error with \<^verbatim>\<open>nil\<close>.
\<close>

fun returned_beside :: "patch_error \<Rightarrow> json \<Rightarrow> bool" where
  "returned_beside (KeyNotFound k) r = (case r of JMap m \<Rightarrow> fmlookup m k = None | _ \<Rightarrow> False)"
| "returned_beside InvalidIndex r = (case r of JSlice a n \<Rightarrow> True | _ \<Rightarrow> False)"
| "returned_beside IndexOutOfBounds r = (case r of JSlice a n \<Rightarrow> True | _ \<Rightarrow> False)"
| "returned_beside PathEndsInSlice r = (case r of JSlice a n \<Rightarrow> True | _ \<Rightarrow> False)"
| "returned_beside e r = (r = JNull)"

lemma returned_beside_nil: "nil_error e \<Longrightarrow> returned_beside e r \<longleftrightarrow> r = JNull"
  by (cases e) simp_all

lemma Accept_error_value:
  "Accept rt st v p cur = (st', r, Some e) \<Longrightarrow>
     st' = st \<and> returned_beside e r \<and> (\<not> nil_error e \<longrightarrow> inside st v r)"
  and "patchVisitor_Map rt st m p cur = (st', r, Some e) \<Longrightarrow>
     st' = st \<and> returned_beside e r \<and> (\<not> nil_error e \<longrightarrow> inside st (JMap m) r)"
  and "patchVisitor_Slice rt st sl p cur = (st', r, Some e) \<Longrightarrow>
     st' = st \<and> returned_beside e r \<and> (\<not> nil_error e \<longrightarrow> inside st (JSlice (fst sl) (snd sl)) r)"
proof (induction rt st v p cur and rt st m p cur and rt st sl p cur
    arbitrary: st' r e and st' r e and st' r e
    rule: Accept_patchVisitor_Map_patchVisitor_Slice.induct)
  case (1 rt st v p cur)
  then show ?case
    by (cases v) (auto simp: Accept.simps)
next
  case (2 rt st m p cur)
  let ?sp = "SplitAfterN2 cur"
  let ?k = "TrimSuffix (hd ?sp)"
  have nt: "\<not> (length ?sp = 1 \<and> Operation p = ''ObjectAdd'')"
    using "2.prems" by (auto simp: patchVisitor_Map.simps Let_def split: option.splits)
  show ?case
  proof (cases "fmlookup m ?k")
    case None
    then show ?thesis
      using "2.prems" nt by (auto simp: patchVisitor_Map.simps Let_def intro: inside_self)
  next
    case (Some val)
    let ?rest = "if length ?sp \<noteq> 1 then ?sp ! 1 else []"
    from "2.prems" nt Some have acc: "Accept rt st val p ?rest = (st', r, Some e)"
      by (auto simp: patchVisitor_Map.simps Let_def split: prod.splits option.splits)
    have "st' = st \<and> returned_beside e r \<and> (\<not> nil_error e \<longrightarrow> inside st val r)"
      by (rule "2.IH" [OF refl refl nt Some acc])
    then show ?thesis using Some by (auto intro: inside_member)
  qed
next
  case (3 rt st sl p cur)
  obtain a n where sl: "sl = (a, n)" by (cases sl)
  show ?case
  proof (cases "cur = []")
    case True
    then show ?thesis
      using "3.prems"
      by (auto simp: patchVisitor_Slice.simps Let_def make_slice_def sl
          split: if_splits option.splits prod.splits)
  next
    case False
    show ?thesis
    proof (cases "Atoi (TrimSuffix (hd (SplitAfterN2 cur)))")
      case None
      then show ?thesis
        using "3.prems" False by (auto simp: patchVisitor_Slice.simps Let_def sl intro: inside_self)
    next
      case (Some t)
      show ?thesis
      proof (cases "int n \<le> t \<or> length (SplitAfterN2 cur) = 1")
        case True
        then show ?thesis
          using "3.prems" False Some
          by (auto simp: patchVisitor_Slice.simps Let_def sl split: if_splits intro: inside_self)
      next
        case nb: False
        then have c: "\<not> int n \<le> t" "length (SplitAfterN2 cur) \<noteq> 1" by auto
        note tr = Slice_traverse [OF False Some c, of rt st a p]
        have a: "a = fst sl" and n: "n = snd sl" by (simp_all add: sl)
        have na: "\<not> (Operation p = ''ArrayAdd'' \<and> cur = [])"
          and nr: "\<not> (Operation p = ''ArrayRemove'' \<and> cur = [])" using False by simp_all
        have ih: "Accept rt st (st ! a ! nat t) p (SplitAfterN2 cur ! 1) = (s, u, Some x)
            \<Longrightarrow> s = st \<and> returned_beside x u \<and> (\<not> nil_error x \<longrightarrow> inside st (st ! a ! nat t) u)"
          for s u x
          by (rule "3.IH" [OF a n na nr False refl refl Some c])
        have t0: "0 \<le> t"
          using "3.prems" by (auto simp: sl tr split: if_splits)
        then have tn: "nat t < n" using c(1) by simp
        from "3.prems" t0 have acc: "Accept rt st (st ! a ! nat t) p (SplitAfterN2 cur ! 1) = (st', r, Some e)"
          by (auto simp: sl tr split: if_splits prod.splits option.splits)
        from ih [OF acc] show ?thesis
          using tn by (auto simp: sl intro: inside_element)
      qed
    qed
  qed
qed

text \<open>
  What a run without error, of an operation other than \<^verbatim>\<open>ArrayRemove\<close>, does to the
  store: it allocates arrays, and writes at most one cell of an array that was there, the
  cell just past the end of an array inside the value it visits, when \<^verbatim>\<open>ArrayAdd\<close>
  finds spare capacity (\<^verbatim>\<open>append\<close> in place).
\<close>

definition only_appends :: "store \<Rightarrow> json \<Rightarrow> Patch \<Rightarrow> store \<Rightarrow> bool" where
  "only_appends st v p st' \<longleftrightarrow>
     (\<exists>ext. st' = st @ ext) \<or>
     (\<exists>b n ext. Operation p = ''ArrayAdd'' \<and> inside st v (JSlice b n) \<and> b < length st \<and>
        n < length (st ! b) \<and> st' = st[b := (st ! b)[n := Value p]] @ ext)"

lemma only_appends_refl: "only_appends st v p st"
  by (simp add: only_appends_def)

lemma only_appends_lift:
  assumes "only_appends st v p st'" and "\<And>r. inside st v r \<Longrightarrow> inside st w r"
  shows "only_appends st w p (st' @ e)"
proof -
  from assms(1) consider (alloc) ext where "st' = st @ ext"
    | (cell) b n ext where "Operation p = ''ArrayAdd''" "inside st v (JSlice b n)" "b < length st"
        "n < length (st ! b)" "st' = st[b := (st ! b)[n := Value p]] @ ext"
    unfolding only_appends_def by blast
  then show ?thesis
  proof cases
    case alloc
    then have "st' @ e = st @ (ext @ e)" by simp
    then show ?thesis unfolding only_appends_def by blast
  next
    case cell
    have "Operation p = ''ArrayAdd'' \<and> inside st w (JSlice b n) \<and> b < length st \<and>
        n < length (st ! b) \<and> st' @ e = st[b := (st ! b)[n := Value p]] @ (ext @ e)"
      using cell assms(2) by simp
    then show ?thesis unfolding only_appends_def by blast
  qed
qed

lemma only_appends_alloc: "only_appends st v p st' \<Longrightarrow> only_appends st v p (st' @ e)"
  by (rule only_appends_lift)

lemma only_appends_member:
  "fmlookup m k = Some v \<Longrightarrow> only_appends st v p st' \<Longrightarrow> only_appends st (JMap m) p st'"
  using only_appends_lift [of st v p st' "JMap m" "[]"] by (simp add: inside_member)

lemma only_appends_element:
  "i < n \<Longrightarrow> only_appends st (st ! a ! i) p st' \<Longrightarrow> only_appends st (JSlice a n) p st'"
  using only_appends_lift [of st "st ! a ! i" p st' "JSlice a n" "[]"] by (simp add: inside_element)

lemma only_appends_in_place:
  "Operation p = ''ArrayAdd'' \<Longrightarrow> n < length (st ! a) \<Longrightarrow>
   only_appends st (JSlice a n) p (st[a := (st ! a)[n := Value p]])"
proof (cases "a < length st")
  case True
  assume "Operation p = ''ArrayAdd''" "n < length (st ! a)"
  then have "Operation p = ''ArrayAdd'' \<and> inside st (JSlice a n) (JSlice a n) \<and> a < length st \<and>
        n < length (st ! a) \<and> st[a := (st ! a)[n := Value p]] = st[a := (st ! a)[n := Value p]] @ []"
    using True by (simp add: inside_self)
  then show ?thesis unfolding only_appends_def by blast
next
  case False
  then have "st[a := (st ! a)[n := Value p]] = st @ []" by (simp add: list_update_beyond)
  then have "\<exists>ext. st[a := (st ! a)[n := Value p]] = st @ ext" by (rule exI)
  then show ?thesis unfolding only_appends_def by (rule disjI1)
qed

lemma Accept_only_appends:
  "Accept rt st v p cur = (st', r, None) \<Longrightarrow> Operation p \<noteq> ''ArrayRemove'' \<Longrightarrow>
     only_appends st v p st'"
  and "patchVisitor_Map rt st m p cur = (st', r, None) \<Longrightarrow> Operation p \<noteq> ''ArrayRemove'' \<Longrightarrow>
     only_appends st (JMap m) p st'"
  and "patchVisitor_Slice rt st sl p cur = (st', r, None) \<Longrightarrow> Operation p \<noteq> ''ArrayRemove'' \<Longrightarrow>
     only_appends st (JSlice (fst sl) (snd sl)) p st'"
proof (induction rt st v p cur and rt st m p cur and rt st sl p cur
    arbitrary: st' r and st' r and st' r
    rule: Accept_patchVisitor_Map_patchVisitor_Slice.induct)
  case (1 rt st v p cur)
  then show ?case
    by (cases v) (auto simp: Accept.simps)
next
  case (2 rt st m p cur)
  let ?sp = "SplitAfterN2 cur"
  let ?k = "TrimSuffix (hd ?sp)"
  show ?case
  proof (cases "length ?sp = 1 \<and> Operation p = ''ObjectAdd''")
    case True
    then have "st' = st"
      using "2.prems"(1) by (auto simp: patchVisitor_Map.simps Let_def split: option.splits)
    then show ?thesis by (simp add: only_appends_refl)
  next
    case nt: False
    show ?thesis
    proof (cases "fmlookup m ?k")
      case None
      then show ?thesis
        using "2.prems"(1) nt by (auto simp: patchVisitor_Map.simps Let_def)
    next
      case (Some val)
      let ?rest = "if length ?sp \<noteq> 1 then ?sp ! 1 else []"
      from "2.prems"(1) nt Some obtain u where acc: "Accept rt st val p ?rest = (st', u, None)"
        by (auto simp: patchVisitor_Map.simps Let_def split: prod.splits option.splits)
      have "only_appends st val p st'"
        by (rule "2.IH" [OF refl refl nt Some acc "2.prems"(2)])
      then show ?thesis using Some by (rule only_appends_member [rotated])
    qed
  qed
next
  case (3 rt st sl p cur)
  obtain a n where sl: "sl = (a, n)" by (cases sl)
  note nr0 = "3.prems"(2)
  show ?case
  proof (cases "cur = []")
    case True
    show ?thesis
    proof (cases "Operation p = ''ArrayAdd''")
      case add: True
      show ?thesis
      proof (cases "n < length (st ! a)")
        case True
        then have "st' = st[a := (st ! a)[n := Value p]]"
          using "3.prems"(1) add \<open>cur = []\<close> by (simp add: patchVisitor_Slice.simps sl)
        then show ?thesis using only_appends_in_place [OF add True] by (simp add: sl)
      next
        case False
        then have "st' = st @ [take n (st ! a) @ [Value p]
                     @ replicate (growslice rt (length (take n (st ! a) @ [Value p]))) JNull]"
          using "3.prems"(1) add \<open>cur = []\<close>
          by (auto simp: patchVisitor_Slice.simps sl make_slice_def)
        then show ?thesis unfolding only_appends_def by blast
      qed
    next
      case False
      then show ?thesis
        using "3.prems" True by (auto simp: patchVisitor_Slice.simps sl)
    qed
  next
    case False
    show ?thesis
    proof (cases "Atoi (TrimSuffix (hd (SplitAfterN2 cur)))")
      case None
      then show ?thesis
        using "3.prems" False by (auto simp: patchVisitor_Slice.simps Let_def sl)
    next
      case (Some t)
      show ?thesis
      proof (cases "int n \<le> t \<or> length (SplitAfterN2 cur) = 1")
        case True
        then show ?thesis
          using "3.prems" False Some
          by (auto simp: patchVisitor_Slice.simps Let_def sl split: if_splits)
      next
        case nb: False
        then have c: "\<not> int n \<le> t" "length (SplitAfterN2 cur) \<noteq> 1" by auto
        note tr = Slice_traverse [OF False Some c, of rt st a p]
        have a: "a = fst sl" and n: "n = snd sl" by (simp_all add: sl)
        have na: "\<not> (Operation p = ''ArrayAdd'' \<and> cur = [])"
          and nr: "\<not> (Operation p = ''ArrayRemove'' \<and> cur = [])" using False by simp_all
        have ih: "Accept rt st (st ! a ! nat t) p (SplitAfterN2 cur ! 1) = (s, u, None)
            \<Longrightarrow> only_appends st (st ! a ! nat t) p s" for s u
          by (rule "3.IH" [OF a n na nr False refl refl Some c _ nr0])
        show ?thesis
        proof (cases "t < 0")
          case True
          then have "st' = st @ [map (\<lambda>j. st ! a ! j) [0..<n] @ replicate (growslice rt n) JNull]"
            using "3.prems"(1) by (simp add: sl tr)
          then show ?thesis unfolding only_appends_def by blast
        next
          case t0: False
          then have tn: "nat t < n" using c(1) by simp
          from "3.prems"(1) t0 obtain s u where
            acc: "Accept rt st (st ! a ! nat t) p (SplitAfterN2 cur ! 1) = (s, u, None)"
            and st': "st' = s @ [(map (\<lambda>j. st ! a ! j) [0..<nat t] @ [u]
                        @ map (\<lambda>j. s ! a ! j) [nat t + 1..<n])
                      @ replicate (growslice rt n) JNull]"
            by (auto simp: sl tr split: if_splits prod.splits option.splits)
          have "only_appends st (JSlice a n) p s"
            by (rule only_appends_element [OF tn ih [OF acc]])
          then show ?thesis unfolding st' sl by (simp only: fst_conv snd_conv only_appends_alloc)
        qed
      qed
    qed
  qed
qed

text \<open>
  Claim C3 as stated fails twice. A path without its leading slash makes \<^verbatim>\<open>ApplyPatch\<close>
  return \<^verbatim>\<open>(nil, err)\<close>, not the document. And \<^verbatim>\<open>ArrayRemove\<close> on
  \<^verbatim>\<open>{"a":[1,2,3]}\<close> shifts the cells of the backing array of the document's own array
  (\<^verbatim>\<open>append(slice[:i], slice[i+1:]...)\<close>), so the input reads \<^verbatim>\<open>[2,3,3]\<close> afterwards.
\<close>

theorem ApplyPatch_error_value_counterexample:
  "ApplyPatch rt0 [] (JMap fmempty) \<lparr>Operation = ''ObjectAdd'', Path = ''a'', Value = JNull\<rparr> =
     ([], JNull, Some MissingLeadingSlash) \<and> JNull \<noteq> JMap fmempty \<and>
   ApplyPatch rt0 [[JNumber 1, JNumber 2, JNumber 3]] (JMap (fmupd ''a'' (JSlice 0 3) fmempty))
       \<lparr>Operation = ''ArrayRemove'', Path = ''/a'', Value = JNumber 1\<rparr> =
     ([[JNumber 2, JNumber 3, JNumber 3]], JMap (fmupd ''a'' (JSlice 0 2) fmempty), None) \<and>
   slice_elems [[JNumber 2, JNumber 3, JNumber 3]] 0 3 \<noteq> slice_elems [[JNumber 1, JNumber 2, JNumber 3]] 0 3"
  by (simp add: ApplyPatch_def new_visitor_def CutPrefix_def Accept.simps patchVisitor_Map.simps
      patchVisitor_Slice.simps SplitAfterN2_def TrimSuffix_def rt0_def slice_elems_def Let_def)

text \<open>
  Claim C3, amended. For every store, document \<open>d\<close> and patch:
  \<^item> When \<^verbatim>\<open>ApplyPatch\<close> returns an error, it has written no backing array and allocated
    none: the store is the one it was given. The value beside the error is \<^verbatim>\<open>nil\<close> for
    "missing leading slash", "invalid patch operation" and "patching a
    boolean/number/string/null is not supported". For "Key k not found in map" it is an
    object inside \<open>d\<close> that has no key \<open>k\<close>, and for "invalid index", "index out of bounds"
    and "path ends in slice" it is an array inside \<open>d\<close>; inside \<open>d\<close> means \<open>d\<close> itself or a
    value reached from it through member values and array elements.
  \<^item> When it returns no error and the operation is not \<^verbatim>\<open>ArrayRemove\<close>, every array it
    built is newly allocated and the arrays that were there are as they were, except that
    \<^verbatim>\<open>ArrayAdd\<close> may have stored its value in the spare cell just past the end of an
    array inside \<open>d\<close> (cell \<open>n\<close> of the backing array of an array of length \<open>n\<close>), which no
    array of that length reads.
  \<^item> In particular after an \<^verbatim>\<open>ObjectAdd\<close> without error a document all of whose arrays
    are in the store reads, in the new store, as it read before.
\<close>

theorem ApplyPatch_keeps_input:
  "(ApplyPatch rt st d p = (st', r, Some e) \<longrightarrow>
      st' = st \<and> returned_beside e r \<and> (\<not> nil_error e \<longrightarrow> inside st d r)) \<and>
   (ApplyPatch rt st d p = (st', r, None) \<and> Operation p \<noteq> ''ArrayRemove'' \<longrightarrow>
      only_appends st d p st') \<and>
   (ApplyPatch rt st d p = (st', r, None) \<and> Operation p = ''ObjectAdd'' \<and> closed_json st d \<longrightarrow>
      same_json st st' d d)"
proof (cases "new_visitor p")
  case (Inl err)
  then show ?thesis
    by (auto simp: ApplyPatch_def new_visitor_def split: option.splits)
next
  case (Inr cur)
  then have ap: "ApplyPatch rt st d p = Accept rt st d p cur" by (simp add: ApplyPatch_def)
  have 1: "st' = st \<and> returned_beside e r \<and> (\<not> nil_error e \<longrightarrow> inside st d r)"
    if "ApplyPatch rt st d p = (st', r, Some e)"
    using that Accept_error_value(1) [of rt st d p cur st' r e] ap by simp
  have 2: "only_appends st d p st'"
    if "ApplyPatch rt st d p = (st', r, None)" "Operation p \<noteq> ''ArrayRemove''"
    using that Accept_only_appends(1) [of rt st d p cur st' r] ap by simp
  have 3: "same_json st st' d d"
    if a: "ApplyPatch rt st d p = (st', r, None)" and o: "Operation p = ''ObjectAdd''"
      and c: "closed_json st d"
  proof -
    have "only_appends st d p st'" using 2 [OF a] o by simp
    then obtain ext where "st' = st @ ext" using o by (auto simp: only_appends_def)
    then show ?thesis using closed_json_ext [OF c] by simp
  qed
  show ?thesis using 1 2 3 by blast
qed

theorem ApplyPatch_keeps_input_witness:
  "ApplyPatch rt0 [] (JMap (fmupd ''a'' (JNumber 1) fmempty))
       \<lparr>Operation = ''ObjectAdd'', Path = ''/b/c'', Value = JNull\<rparr> =
     ([], JMap (fmupd ''a'' (JNumber 1) fmempty), Some (KeyNotFound ''b'')) \<and>
   returned_beside (KeyNotFound ''b'') (JMap (fmupd ''a'' (JNumber 1) fmempty)) \<and>
   inside [] (JMap (fmupd ''a'' (JNumber 1) fmempty)) (JMap (fmupd ''a'' (JNumber 1) fmempty)) \<and>
   ApplyPatch rt0 [[JNumber 1, JNumber 2, JNull]] (JMap (fmupd ''a'' (JSlice 0 2) fmempty))
       \<lparr>Operation = ''ArrayAdd'', Path = ''/a'', Value = JNumber 3\<rparr> =
     ([[JNumber 1, JNumber 2, JNumber 3]], JMap (fmupd ''a'' (JSlice 0 3) fmempty), None) \<and>
   only_appends [[JNumber 1, JNumber 2, JNull]] (JMap (fmupd ''a'' (JSlice 0 2) fmempty))
       \<lparr>Operation = ''ArrayAdd'', Path = ''/a'', Value = JNumber 3\<rparr>
       [[JNumber 1, JNumber 2, JNumber 3]] \<and>
   ApplyPatch rt0 [] (JMap (fmupd ''a'' (JNumber 1) fmempty))
       \<lparr>Operation = ''ObjectAdd'', Path = ''/b'', Value = JNumber 2\<rparr> =
     ([], JMap (fmupd ''b'' (JNumber 2) (fmupd ''a'' (JNumber 1) fmempty)), None) \<and>
   same_json [] [] (JMap (fmupd ''a'' (JNumber 1) fmempty)) (JMap (fmupd ''a'' (JNumber 1) fmempty))"
proof -
  let ?d = "JMap (fmupd ''a'' (JNumber 1) fmempty)"
  let ?p = "\<lparr>Operation = ''ObjectAdd'', Path = ''/b/c'', Value = JNull\<rparr>"
  let ?st = "[[JNumber 1, JNumber 2, JNull]]"
  let ?d2 = "JMap (fmupd ''a'' (JSlice 0 2) fmempty)"
  let ?p2 = "\<lparr>Operation = ''ArrayAdd'', Path = ''/a'', Value = JNumber 3\<rparr>"
  let ?p3 = "\<lparr>Operation = ''ObjectAdd'', Path = ''/b'', Value = JNumber 2\<rparr>"
  have ev: "ApplyPatch rt0 [] ?d ?p = ([], ?d, Some (KeyNotFound ''b''))"
    by (simp add: ApplyPatch_def new_visitor_def CutPrefix_def Accept.simps
        patchVisitor_Map.simps SplitAfterN2_def TrimSuffix_def)
  have ev2: "ApplyPatch rt0 ?st ?d2 ?p2
               = ([[JNumber 1, JNumber 2, JNumber 3]], JMap (fmupd ''a'' (JSlice 0 3) fmempty), None)"
    by (simp add: ApplyPatch_def new_visitor_def CutPrefix_def Accept.simps
        patchVisitor_Map.simps patchVisitor_Slice.simps SplitAfterN2_def TrimSuffix_def Let_def)
  have ev3: "ApplyPatch rt0 [] ?d ?p3
               = ([], JMap (fmupd ''b'' (JNumber 2) (fmupd ''a'' (JNumber 1) fmempty)), None)"
    by (simp add: ApplyPatch_def new_visitor_def CutPrefix_def Accept.simps
        patchVisitor_Map.simps SplitAfterN2_def TrimSuffix_def)
  have cl: "closed_json [] ?d"
    by (rule closed_json_MapI) (auto split: if_splits)
  from ApplyPatch_keeps_input [of rt0 "[]" ?d ?p "[]" ?d "KeyNotFound ''b''"]
    ApplyPatch_keeps_input [of rt0 ?st ?d2 ?p2 "[[JNumber 1, JNumber 2, JNumber 3]]"
       "JMap (fmupd ''a'' (JSlice 0 3) fmempty)"]
    ApplyPatch_keeps_input [of rt0 "[]" ?d ?p3 "[]"
       "JMap (fmupd ''b'' (JNumber 2) (fmupd ''a'' (JNumber 1) fmempty))"]
    ev ev2 ev3 cl
  show ?thesis by simp
qed


section \<open>Subscriber fan-out (package subscribe)\<close>

text \<open>
  A subscriber with its channel \<^verbatim>\<open>Updates\<close>: the messages buffered in the channel, oldest
  first, and the channel's capacity (100 in \<^verbatim>\<open>NewSubscriber\<close>). The connection, the
  flusher and the close notification belong to the delivery task and play no part in
  \<^verbatim>\<open>SendUpdate\<close>.
\<close>

record Subscriber =
  ID :: string
  Updates :: "string list"
  capacity :: nat
  IntervalStart :: string
  IntervalEnd :: string
  Closed :: bool

text \<open>
  \<^verbatim>\<open>SendUpdate\<close> takes \<^verbatim>\<open>s.mu\<close>, returns at once when the subscriber is closed, and
  otherwise waits in a \<^verbatim>\<open>select\<close> for the channel to accept the message or for five
  seconds to pass. \<open>received\<close> says whether, when the buffer is full, the delivery task takes a
  message off the channel within these five seconds; the send then goes through. On the
  timeout branch \<^verbatim>\<open>SendUpdate\<close> calls \<^verbatim>\<open>s.Close()\<close>, whose first statement is
  \<^verbatim>\<open>s.mu.Lock()\<close> on the mutex that \<^verbatim>\<open>SendUpdate\<close> still holds: the call never
  returns (\<open>None\<close>).
\<close>

definition SendUpdate :: "Subscriber \<Rightarrow> string \<Rightarrow> bool \<Rightarrow> Subscriber option" where
  "SendUpdate s msg received =
     (if Closed s then Some s
      else if length (Updates s) < capacity s then Some (s\<lparr>Updates := Updates s @ [msg]\<rparr>)
      else if received then Some (s\<lparr>Updates := tl (Updates s @ [msg])\<rparr>)
      else None)"

text \<open>
  The manager's map \<^verbatim>\<open>subscribers\<close> is given as the list of its values in the order in
  which \<^verbatim>\<open>range\<close> happens to visit them; \<open>received\<close> is asked by subscriber ID.
\<close>

fun NotifySubscribersUpdate ::
  "Subscriber list \<Rightarrow> string \<Rightarrow> string \<Rightarrow> (string \<Rightarrow> bool) \<Rightarrow> Subscriber list option" where
  "NotifySubscribersUpdate [] msg intervalComp received = Some []"
| "NotifySubscribersUpdate (s # ss) msg intervalComp received =
     (if IntervalStart s \<le> intervalComp \<and> IntervalEnd s \<ge> intervalComp then
        (case SendUpdate s msg (received (ID s)) of
           None \<Rightarrow> None
         | Some s' \<Rightarrow> map_option ((#) s') (NotifySubscribersUpdate ss msg intervalComp received))
      else map_option ((#) s) (NotifySubscribersUpdate ss msg intervalComp received))"

fun NotifySubscribersDelete ::
  "Subscriber list \<Rightarrow> string \<Rightarrow> string \<Rightarrow> (string \<Rightarrow> bool) \<Rightarrow> Subscriber list option" where
  "NotifySubscribersDelete [] msg intervalComp received = Some []"
| "NotifySubscribersDelete (s # ss) msg intervalComp received =
     (if IntervalStart s \<le> intervalComp \<and> IntervalEnd s \<ge> intervalComp then
        (case SendUpdate s msg (received (ID s)) of
           None \<Rightarrow> None
         | Some s' \<Rightarrow> map_option ((#) s') (NotifySubscribersDelete ss msg intervalComp received))
      else map_option ((#) s) (NotifySubscribersDelete ss msg intervalComp received))"

definition notified :: "Subscriber \<Rightarrow> string \<Rightarrow> Subscriber \<Rightarrow> bool" where
  "notified s msg s' \<longleftrightarrow>
     (if length (Updates s) < capacity s then s' = s\<lparr>Updates := Updates s @ [msg]\<rparr>
      else s' = s\<lparr>Updates := tl (Updates s @ [msg])\<rparr>)"

lemma NotifySubscribersDelete_eq:
  "NotifySubscribersDelete ss msg v received = NotifySubscribersUpdate ss msg v received"
  by (induction ss) (auto split: option.splits)

lemma NotifySubscribersUpdate_nth:
  "NotifySubscribersUpdate ss msg v received = Some ss' \<Longrightarrow>
   length ss' = length ss \<and>
   (\<forall>i<length ss.
      if IntervalStart (ss ! i) \<le> v \<and> v \<le> IntervalEnd (ss ! i) \<and> \<not> Closed (ss ! i)
      then notified (ss ! i) msg (ss' ! i)
      else ss' ! i = ss ! i)"
proof (induction ss arbitrary: ss')
  case Nil
  then show ?case by simp
next
  case (Cons s ss)
  from Cons.prems obtain s' rest where ss': "ss' = s' # rest"
    and rest: "NotifySubscribersUpdate ss msg v received = Some rest"
    and hd: "if IntervalStart s \<le> v \<and> v \<le> IntervalEnd s
             then SendUpdate s msg (received (ID s)) = Some s' else s' = s"
    by (auto split: if_splits option.splits)
  have hd': "if IntervalStart s \<le> v \<and> v \<le> IntervalEnd s \<and> \<not> Closed s
             then notified s msg s' else s' = s"
    using hd by (auto simp: SendUpdate_def notified_def split: if_splits)
  from Cons.IH [OF rest] have len: "length rest = length ss"
    and tl: "\<And>i. i < length ss \<Longrightarrow>
      (if IntervalStart (ss ! i) \<le> v \<and> v \<le> IntervalEnd (ss ! i) \<and> \<not> Closed (ss ! i)
       then notified (ss ! i) msg (rest ! i) else rest ! i = ss ! i)" by auto
  show ?case
  proof (intro conjI allI impI)
    show "length ss' = length (s # ss)" by (simp add: ss' len)
    fix i assume "i < length (s # ss)"
    then show "if IntervalStart ((s # ss) ! i) \<le> v \<and> v \<le> IntervalEnd ((s # ss) ! i)
                    \<and> \<not> Closed ((s # ss) ! i)
               then notified ((s # ss) ! i) msg (ss' ! i) else ss' ! i = (s # ss) ! i"
      using hd' tl [of "i - 1"] by (cases i) (auto simp: ss')
  qed
qed

text \<open>
  When a notification returns, it has put the message on the channel of exactly those
  registered subscribers that are not closed and whose interval contains the value (both ends
  inclusive, byte-wise order), and has left every other subscriber as it was. Update and
  delete notifications do the same.
\<close>

lemma Notify_when_it_returns:
  assumes "NotifySubscribersUpdate ss msg v received = Some ss'"
  shows "NotifySubscribersDelete ss msg v received = Some ss' \<and>
         length ss' = length ss \<and>
         (\<forall>i<length ss.
            if IntervalStart (ss ! i) \<le> v \<and> v \<le> IntervalEnd (ss ! i) \<and> \<not> Closed (ss ! i)
            then notified (ss ! i) msg (ss' ! i)
            else ss' ! i = ss ! i)"
  using assms NotifySubscribersUpdate_nth [OF assms] by (simp add: NotifySubscribersDelete_eq)

lemma SendUpdate_timeout:
  "\<not> Closed s \<Longrightarrow> capacity s \<le> length (Updates s) \<Longrightarrow> SendUpdate s msg False = None"
  by (simp add: SendUpdate_def)

lemma NotifySubscribersUpdate_blocked:
  "NotifySubscribersUpdate ss msg v received = None \<Longrightarrow>
   NotifySubscribersUpdate (before @ ss) msg v received = None"
  by (induction before) (auto split: option.splits)

text \<open>
  Claim C9. A notification does not reach every subscriber whose interval contains the value.
  When one of them is open, has a full channel and is not served within the five seconds,
  \<^verbatim>\<open>SendUpdate\<close> calls \<^verbatim>\<open>s.Close()\<close> while it holds \<^verbatim>\<open>s.mu\<close>, which
  \<^verbatim>\<open>Close\<close> locks first: the notification never returns, whatever subscribers
  \<^verbatim>\<open>range\<close> has visited before and whatever subscribers are still to come, so those are
  never sent the message.
\<close>

theorem Notify_blocks_on_slow_subscriber:
  assumes "IntervalStart s \<le> v" and "v \<le> IntervalEnd s" and "\<not> Closed s"
    and "capacity s \<le> length (Updates s)" and "\<not> received (ID s)"
  shows "NotifySubscribersUpdate (before @ s # after) msg v received = None \<and>
         NotifySubscribersDelete (before @ s # after) msg v received = None"
proof -
  have "SendUpdate s msg (received (ID s)) = None"
    using assms(3-5) by (simp add: SendUpdate_timeout)
  then have "NotifySubscribersUpdate (s # after) msg v received = None"
    using assms(1,2) by simp
  then have "NotifySubscribersUpdate (before @ s # after) msg v received = None"
    by (rule NotifySubscribersUpdate_blocked)
  then show ?thesis by (simp add: NotifySubscribersDelete_eq)
qed

text \<open>
  Two subscribers with the interval \<open>[a, m]\<close> and a message for the value \<open>h\<close>: the first
  has its channel full (capacity 1) and nobody reads it, the second has an empty channel. The
  notification blocks on the first; alone, the second is sent the message.
\<close>

theorem Notify_blocks_on_slow_subscriber_witness:
  "NotifySubscribersUpdate
     [\<lparr>ID = ''slow'', Updates = [''old''], capacity = 1, IntervalStart = ''a'', IntervalEnd = ''m'',
       Closed = False\<rparr>,
      \<lparr>ID = ''ok'', Updates = [], capacity = 100, IntervalStart = ''a'', IntervalEnd = ''m'',
       Closed = False\<rparr>] ''msg'' ''h'' (\<lambda>_. False) = None \<and>
   NotifySubscribersDelete
     [\<lparr>ID = ''slow'', Updates = [''old''], capacity = 1, IntervalStart = ''a'', IntervalEnd = ''m'',
       Closed = False\<rparr>,
      \<lparr>ID = ''ok'', Updates = [], capacity = 100, IntervalStart = ''a'', IntervalEnd = ''m'',
       Closed = False\<rparr>] ''msg'' ''h'' (\<lambda>_. False) = None \<and>
   NotifySubscribersUpdate
     [\<lparr>ID = ''ok'', Updates = [], capacity = 100, IntervalStart = ''a'', IntervalEnd = ''m'',
       Closed = False\<rparr>] ''msg'' ''h'' (\<lambda>_. False) =
   Some [\<lparr>ID = ''ok'', Updates = [''msg''], capacity = 100, IntervalStart = ''a'', IntervalEnd = ''m'',
       Closed = False\<rparr>]"
proof -
  let ?slow = "\<lparr>ID = ''slow'', Updates = [''old''], capacity = 1, IntervalStart = ''a'',
                IntervalEnd = ''m'', Closed = False\<rparr>"
  let ?ok = "\<lparr>ID = ''ok'', Updates = [], capacity = 100, IntervalStart = ''a'', IntervalEnd = ''m'',
              Closed = False\<rparr>"
  have h: "IntervalStart ?slow \<le> ''h''" "''h'' \<le> IntervalEnd ?slow" "\<not> Closed ?slow"
    "capacity ?slow \<le> length (Updates ?slow)" "\<not> (\<lambda>_. False) (ID ?slow)"
    by simp_all
  have alone: "NotifySubscribersUpdate [?ok] ''msg'' ''h'' (\<lambda>_. False) =
     Some [?ok\<lparr>Updates := [''msg'']\<rparr>]"
    by (simp add: SendUpdate_def)
  from Notify_blocks_on_slow_subscriber [OF h, of "[]" "[?ok]" "''msg''"] alone
  show ?thesis by simp
qed


section \<open>The skip list (package skiplist)\<close>

text \<open>
  Nodes live in a heap indexed by address; a \<^verbatim>\<open>*node\<close> is an address or \<^verbatim>\<open>nil\<close>
  (\<open>None\<close>). \<open>allocated\<close> counts the nodes created so far and is the address of the next one;
  cells at and above it are never reached. The operations are modelled as one goroutine runs
  them, one after the other: every \<^verbatim>\<open>Lock\<close> finds its mutex free (an operation locks
  distinct nodes and has released them all when it returns), so the mutexes carry no state
  here. A dereference of \<^verbatim>\<open>nil\<close> and an index out of range are panics; a loop that does
  not end is the value \<open>None\<close>.
\<close>

datatype sl_panic = NilDereference | IndexOutOfRange

datatype 'a outcome = Returns 'a | Panics sl_panic

record ('k, 'v) node =
  key :: 'k
  val :: 'v
  nxt :: "nat option list"
  marked :: bool
  fullyLinked :: bool
  topLevel :: int

record ('k, 'v) SkipList =
  nodes :: "nat \<Rightarrow> ('k, 'v) node"
  allocated :: nat
  head :: nat
  totalOperations :: "32 word"

definition STRINGMAX :: string where
  "STRINGMAX = [CHR 0xC4, CHR 0x80]"

definition STRINGMIN :: string where
  "STRINGMIN = []"

definition DEFAULT_LEVEL :: nat where
  "DEFAULT_LEVEL = 5"

text \<open>
  \<^verbatim>\<open>New\<close>: the head at address 0, the tail at address 1, the head linked to the tail at
  every level. The value of a sentinel is the zero value of \<^verbatim>\<open>V\<close>, a parameter.
\<close>

definition New :: "'v \<Rightarrow> 'k \<Rightarrow> 'k \<Rightarrow> nat \<Rightarrow> ('k, 'v) SkipList" where
  "New zero minKey maxKey maxLevel =
     (let headNode = \<lparr>key = minKey, val = zero, nxt = replicate maxLevel (Some 1), marked = False,
                   fullyLinked = True, topLevel = int maxLevel - 1\<rparr>;
          tailNode = \<lparr>key = maxKey, val = zero, nxt = replicate maxLevel None, marked = False,
                   fullyLinked = True, topLevel = 0\<rparr>
      in \<lparr>nodes = (\<lambda>_. tailNode)(0 := headNode), allocated = 2, head = 0, totalOperations = 0\<rparr>)"

text \<open>
  The inner loop of \<^verbatim>\<open>find\<close>: \<^verbatim>\<open>for current.key < key\<close>, at one level. It returns
  the last node passed and the node it stopped at.
\<close>

partial_function (option) find_advance ::
  "(nat \<Rightarrow> ('k :: linorder, 'v) node) \<Rightarrow> nat \<Rightarrow> 'k \<Rightarrow> nat \<Rightarrow> nat option \<Rightarrow> (nat \<times> nat) outcome option"
where
  "find_advance h level k pred current =
     (case current of
        None \<Rightarrow> Some (Panics NilDereference)
      | Some c \<Rightarrow>
          if key (h c) < k then
            (if level < length (nxt (h c)) then find_advance h level k c (nxt (h c) ! level)
             else Some (Panics IndexOutOfRange))
          else Some (Returns (pred, c)))"

text \<open>
  The outer loop of \<^verbatim>\<open>find\<close>, from the head's top level down to 0; the first argument
  counts the levels still to search, so the current level is one less. \<^verbatim>\<open>preds[level]\<close>
  and \<^verbatim>\<open>succs[level]\<close> are written once each, from the top level downwards: the lists are
  built by putting the entry of each level in front, which leaves entry \<open>l\<close> at index \<open>l\<close>.
\<close>

fun find_levels ::
  "(nat \<Rightarrow> ('k :: linorder, 'v) node) \<Rightarrow> 'k \<Rightarrow> nat \<Rightarrow> nat \<Rightarrow> int \<Rightarrow> nat list \<Rightarrow> nat list
     \<Rightarrow> (int \<times> nat list \<times> nat list) outcome option"
where
  "find_levels h k 0 pred foundLevel preds succs = Some (Returns (foundLevel, preds, succs))"
| "find_levels h k (Suc level) pred foundLevel preds succs =
     (if level < length (nxt (h pred)) then
        (case find_advance h level k pred (nxt (h pred) ! level) of
           None \<Rightarrow> None
         | Some (Panics e) \<Rightarrow> Some (Panics e)
         | Some (Returns (pred', current)) \<Rightarrow>
             find_levels h k level pred'
               (if key (h current) = k \<and> (foundLevel = - 1 \<or> foundLevel < int level)
                then int level else foundLevel)
               (pred' # preds) (current # succs))
      else Some (Panics IndexOutOfRange))"

definition find :: "('k :: linorder, 'v) SkipList \<Rightarrow> 'k \<Rightarrow> (int \<times> nat list \<times> nat list) outcome option" where
  "find s k =
     find_levels (nodes s) k (nat (topLevel (nodes s (head s)) + 1)) (head s) (- 1) [] []"

definition Find :: "'v \<Rightarrow> ('k :: linorder, 'v) SkipList \<Rightarrow> 'k \<Rightarrow> ('v \<times> bool) outcome option" where
  "Find zero s k =
     (case find s k of
        None \<Rightarrow> None
      | Some (Panics e) \<Rightarrow> Some (Panics e)
      | Some (Returns (levelFound, preds, successor)) \<Rightarrow>
          if levelFound = - 1 then Some (Returns (zero, False))
          else if nat levelFound < length successor then
            (let found = nodes s (successor ! nat levelFound)
             in Some (Returns (val found, fullyLinked found \<and> \<not> marked found)))
          else Some (Panics IndexOutOfRange))"

text \<open>
  \<^verbatim>\<open>Upsert\<close> draws the level of a new node with \<^verbatim>\<open>rand.Float32() < 0.5\<close>; the draws
  are the list \<open>coins\<close> (\<open>True\<close> for "less than 0.5"; a list that runs out reads as \<open>False\<close>).
\<close>

fun pick_level :: "bool list \<Rightarrow> int \<Rightarrow> int \<Rightarrow> int" where
  "pick_level [] headTop topLvl = topLvl"
| "pick_level (c # coins) headTop topLvl =
     (if c \<and> topLvl < headTop then pick_level coins headTop (topLvl + 1) else topLvl)"

text \<open>
  The loop "lock the predecessors" of \<^verbatim>\<open>Upsert\<close>, less the locking: it runs while
  \<open>level \<le> topLvl\<close> and \<open>valid\<close>, and \<open>valid\<close> is its result.
\<close>

function upsert_validate ::
  "(nat \<Rightarrow> ('k, 'v) node) \<Rightarrow> nat list \<Rightarrow> nat list \<Rightarrow> int \<Rightarrow> nat \<Rightarrow> bool outcome"
where
  "upsert_validate h preds succs topLvl level =
     (if int level \<le> topLvl then
        (if level < length preds \<and> level < length succs then
           (if level < length (nxt (h (preds ! level))) then
              (let unmarked = \<not> marked (h (preds ! level)) \<and> \<not> marked (h (succs ! level));
                   connected = (nxt (h (preds ! level)) ! level = Some (succs ! level))
               in if unmarked \<and> connected
                  then upsert_validate h preds succs topLvl (level + 1)
                  else Returns False)
            else Panics IndexOutOfRange)
         else Panics IndexOutOfRange)
      else Returns True)"
  by pat_completeness auto
termination
  by (relation "measure (\<lambda>(h, preds, succs, topLvl, level). nat (topLvl + 1) - level)") auto

declare upsert_validate.simps [simp del]

text \<open>
  The loop "Add to the skip list from the bottom up": \<^verbatim>\<open>preds[level].next[level].Store(newNode)\<close>
  for \<open>level = 0 .. topLvl\<close>.
\<close>

function upsert_link ::
  "(nat \<Rightarrow> ('k, 'v) node) \<Rightarrow> nat list \<Rightarrow> nat \<Rightarrow> int \<Rightarrow> nat \<Rightarrow> (nat \<Rightarrow> ('k, 'v) node) outcome"
where
  "upsert_link h preds newNode topLvl level =
     (if int level \<le> topLvl then
        (if level < length preds \<and> level < length (nxt (h (preds ! level))) then
           upsert_link
             (h(preds ! level := (h (preds ! level))
                  \<lparr>nxt := (nxt (h (preds ! level)))[level := Some newNode]\<rparr>))
             preds newNode topLvl (level + 1)
         else Panics IndexOutOfRange)
      else Returns h)"
  by pat_completeness auto
termination
  by (relation "measure (\<lambda>(h, preds, newNode, topLvl, level). nat (topLvl + 1) - level)") auto

declare upsert_link.simps [simp del]

text \<open>
  \<^verbatim>\<open>Upsert\<close>. The callback \<open>check\<close> runs inside the critical section and may have effects
  of its own (the caller's closures write to documents and to the response): it takes and
  returns the caller's state \<open>'e\<close>. The result is \<^verbatim>\<open>(updated, err)\<close>. One pass of the
  \<^verbatim>\<open>for\<close> loop either returns (\<open>Done\<close>), starts over (\<^verbatim>\<open>continue\<close>, \<open>Again\<close>) or
  never ends (\<open>Forever\<close>): waiting for \<^verbatim>\<open>fullyLinked\<close> is a loop that only another
  goroutine can end.
\<close>

datatype ('r, 'e) pass = Done 'r | Again 'e | Forever

definition Upsert_pass ::
  "'v \<Rightarrow> ('k \<Rightarrow> 'v \<Rightarrow> bool \<Rightarrow> 'e \<Rightarrow> ('x + 'v) \<times> 'e) \<Rightarrow> int \<Rightarrow> 'k :: linorder \<Rightarrow> ('k, 'v) SkipList \<Rightarrow> 'e
     \<Rightarrow> ((bool \<times> 'x option) outcome \<times> ('k, 'v) SkipList \<times> 'e, 'e) pass"
where
  "Upsert_pass zero check topLvl k s env =
     (case find s k of
        None \<Rightarrow> Forever
      | Some (Panics e) \<Rightarrow> Done (Panics e, s, env)
      | Some (Returns (levelFound, preds, succs)) \<Rightarrow>
          if levelFound \<noteq> - 1 then
            (if nat levelFound < length succs then
               (let found = succs ! nat levelFound in
                if \<not> marked (nodes s found) then
                  (if \<not> fullyLinked (nodes s found) then Forever
                   else
                     (case check (key (nodes s found)) (val (nodes s found)) True env of
                        (Inl err, env') \<Rightarrow> Done (Returns (False, Some err), s, env')
                      | (Inr newValue, env') \<Rightarrow>
                          Done (Returns (True, None),
                                s\<lparr>nodes := (nodes s)(found := (nodes s found)\<lparr>val := newValue\<rparr>),
                                  totalOperations := totalOperations s + 1\<rparr>,
                                env')))
                else Again env)
             else Done (Panics IndexOutOfRange, s, env))
          else
            (case check k zero False env of
               (Inl err, env') \<Rightarrow> Done (Returns (False, Some err), s, env')
             | (Inr newValue, env') \<Rightarrow>
                 (case upsert_validate (nodes s) preds succs topLvl 0 of
                    Panics e \<Rightarrow> Done (Panics e, s, env')
                  | Returns valid \<Rightarrow>
                      if \<not> valid then Again env'
                      else
                        (let newNode = allocated s;
                             h = (nodes s)(newNode :=
                                   \<lparr>key = k, val = newValue,
                                    nxt = map Some (take (nat (topLvl + 1)) succs),
                                    marked = False, fullyLinked = False, topLevel = topLvl\<rparr>)
                         in case upsert_link h preds newNode topLvl 0 of
                              Panics e \<Rightarrow> Done (Panics e, s, env')
                            | Returns h' \<Rightarrow>
                                Done (Returns (False, None),
                                      s\<lparr>nodes := h'(newNode := (h' newNode)\<lparr>fullyLinked := True\<rparr>),
                                        allocated := allocated s + 1,
                                        totalOperations := totalOperations s + 1\<rparr>,
                                      env')))))"

partial_function (option) Upsert_loop ::
  "'v \<Rightarrow> ('k \<Rightarrow> 'v \<Rightarrow> bool \<Rightarrow> 'e \<Rightarrow> ('x + 'v) \<times> 'e) \<Rightarrow> int \<Rightarrow> 'k :: linorder \<Rightarrow> ('k, 'v) SkipList \<Rightarrow> 'e
     \<Rightarrow> ((bool \<times> 'x option) outcome \<times> ('k, 'v) SkipList \<times> 'e) option"
where
  "Upsert_loop zero check topLvl k s env =
     (case Upsert_pass zero check topLvl k s env of
        Done r \<Rightarrow> Some r
      | Again env' \<Rightarrow> Upsert_loop zero check topLvl k s env'
      | Forever \<Rightarrow> None)"

definition Upsert ::
  "'v \<Rightarrow> bool list \<Rightarrow> 'k :: linorder \<Rightarrow> ('k \<Rightarrow> 'v \<Rightarrow> bool \<Rightarrow> 'e \<Rightarrow> ('x + 'v) \<times> 'e) \<Rightarrow> ('k, 'v) SkipList \<Rightarrow> 'e
     \<Rightarrow> ((bool \<times> 'x option) outcome \<times> ('k, 'v) SkipList \<times> 'e) option"
where
  "Upsert zero coins k check s env =
     Upsert_loop zero check (pick_level coins (topLevel (nodes s (head s))) 0) k s env"


text \<open>
  \<^verbatim>\<open>Remove\<close>. The loop carries \<^verbatim>\<open>isMarked\<close>, \<^verbatim>\<open>topLevel\<close> and \<^verbatim>\<open>victim\<close> from one
  pass to the next. First the validation loop over the predecessors (less the locking), then
  the unlinking from \<^verbatim>\<open>topLevel\<close> down to 0.
\<close>

function remove_validate ::
  "(nat \<Rightarrow> ('k, 'v) node) \<Rightarrow> nat list \<Rightarrow> nat \<Rightarrow> int \<Rightarrow> nat \<Rightarrow> bool outcome"
where
  "remove_validate h preds victim topLvl level =
     (if int level \<le> topLvl then
        (if level < length preds then
           (if level < length (nxt (h (preds ! level))) then
              (let successor = (nxt (h (preds ! level)) ! level = Some victim)
               in if \<not> marked (h (preds ! level)) \<and> successor
                  then remove_validate h preds victim topLvl (level + 1)
                  else Returns False)
            else Panics IndexOutOfRange)
         else Panics IndexOutOfRange)
      else Returns True)"
  by pat_completeness auto
termination
  by (relation "measure (\<lambda>(h, preds, victim, topLvl, level). nat (topLvl + 1) - level)") auto

declare remove_validate.simps [simp del]

function remove_unlink ::
  "(nat \<Rightarrow> ('k, 'v) node) \<Rightarrow> nat list \<Rightarrow> nat \<Rightarrow> int \<Rightarrow> (nat \<Rightarrow> ('k, 'v) node) outcome"
where
  "remove_unlink h preds victim level =
     (if level \<ge> 0 then
        (if nat level < length preds \<and> nat level < length (nxt (h (preds ! nat level)))
            \<and> nat level < length (nxt (h victim)) then
           remove_unlink
             (h(preds ! nat level := (h (preds ! nat level))
                  \<lparr>nxt := (nxt (h (preds ! nat level)))[nat level := nxt (h victim) ! nat level]\<rparr>))
             preds victim (level - 1)
         else Panics IndexOutOfRange)
      else Returns h)"
  by pat_completeness auto
termination
  by (relation "measure (\<lambda>(h, preds, victim, level). nat (level + 1))") auto

declare remove_unlink.simps [simp del]

definition Remove_pass ::
  "'v \<Rightarrow> 'k :: linorder \<Rightarrow> ('k, 'v) SkipList \<Rightarrow> bool \<Rightarrow> int \<Rightarrow> nat option
     \<Rightarrow> (('v \<times> bool) outcome \<times> ('k, 'v) SkipList, ('k, 'v) SkipList \<times> bool \<times> int \<times> nat option) pass"
where
  "Remove_pass nothing k s isMarked topLvl victim0 =
     (case find s k of
        None \<Rightarrow> Forever
      | Some (Panics e) \<Rightarrow> Done (Panics e, s)
      | Some (Returns (levelFound, preds, succs)) \<Rightarrow>
          if levelFound \<noteq> - 1 \<and> \<not> nat levelFound < length succs
          then Done (Panics IndexOutOfRange, s)
          else
            (let victim = (if levelFound \<noteq> - 1 then Some (succs ! nat levelFound) else victim0) in
             if \<not> isMarked \<and> levelFound = - 1 then Done (Returns (nothing, False), s)
             else
               (case victim of
                  None \<Rightarrow> Done (Panics NilDereference, s)
                | Some v \<Rightarrow>
                    if \<not> isMarked \<and> \<not> fullyLinked (nodes s v) then Done (Returns (nothing, False), s)
                    else if \<not> isMarked \<and> marked (nodes s v) then Done (Returns (nothing, False), s)
                    else if \<not> isMarked \<and> topLevel (nodes s v) \<noteq> levelFound
                      then Done (Returns (nothing, False), s)
                    else
                      (let topLvl' = (if isMarked then topLvl else topLevel (nodes s v));
                           s' = (if isMarked then s
                                 else s\<lparr>nodes := (nodes s)(v := (nodes s v)\<lparr>marked := True\<rparr>)\<rparr>)
                       in case remove_validate (nodes s') preds v topLvl' 0 of
                            Panics e \<Rightarrow> Done (Panics e, s')
                          | Returns valid \<Rightarrow>
                              if \<not> valid then Again (s', True, topLvl', Some v)
                              else
                                (case remove_unlink (nodes s') preds v topLvl' of
                                   Panics e \<Rightarrow> Done (Panics e, s')
                                 | Returns h' \<Rightarrow>
                                     Done (Returns (val (h' v), True),
                                           s'\<lparr>nodes := h',
                                              totalOperations := totalOperations s' + 1\<rparr>))))))"

partial_function (option) Remove_loop ::
  "'v \<Rightarrow> 'k :: linorder \<Rightarrow> ('k, 'v) SkipList \<Rightarrow> bool \<Rightarrow> int \<Rightarrow> nat option
     \<Rightarrow> (('v \<times> bool) outcome \<times> ('k, 'v) SkipList) option"
where
  "Remove_loop nothing k s isMarked topLvl victim =
     (case Remove_pass nothing k s isMarked topLvl victim of
        Done r \<Rightarrow> Some r
      | Again (s', isMarked', topLvl', victim') \<Rightarrow> Remove_loop nothing k s' isMarked' topLvl' victim'
      | Forever \<Rightarrow> None)"

definition Remove ::
  "'v \<Rightarrow> 'k :: linorder \<Rightarrow> ('k, 'v) SkipList \<Rightarrow> (('v \<times> bool) outcome \<times> ('k, 'v) SkipList) option"
where
  "Remove nothing k s = Remove_loop nothing k s False (- 1) None"

text \<open>
  \<^verbatim>\<open>query\<close>, one pass along the bottom level, and \<^verbatim>\<open>Query\<close>. \<open>writes\<close> stands for what
  other goroutines commit between the two loads of the operation counter. The
  \<^verbatim>\<open>select\<close> of \<^verbatim>\<open>Query\<close> has one case and no \<^verbatim>\<open>default\<close>: it waits until the
  context is done, so what matters of the context is whether it is ever done, and then with
  which error (\<^verbatim>\<open>context.Err()\<close>). Every path
  through the body of the \<^verbatim>\<open>for\<close> loop ends in a \<^verbatim>\<open>return\<close> or in that wait.
\<close>

partial_function (option) query_loop ::
  "(nat \<Rightarrow> ('k :: linorder, 'v) node) \<Rightarrow> 'k \<Rightarrow> 'k \<Rightarrow> nat option \<Rightarrow> ('k \<times> 'v) list
     \<Rightarrow> ('k \<times> 'v) list outcome option"
where
  "query_loop h startKey endKey current results =
     (case current of
        None \<Rightarrow> Some (Panics NilDereference)
      | Some c \<Rightarrow>
          if 0 < length (nxt (h c)) then
            (let next = nxt (h c) ! 0 in
             if key (h c) < startKey then query_loop h startKey endKey (nxt (h c) ! 0) results
             else if key (h c) > endKey \<or> next = None then Some (Returns results)
             else query_loop h startKey endKey next (results @ [(key (h c), val (h c))]))
          else Some (Panics IndexOutOfRange))"

definition query :: "('k :: linorder, 'v) SkipList \<Rightarrow> 'k \<Rightarrow> 'k \<Rightarrow> ('k \<times> 'v) list outcome option" where
  "query s startKey endKey =
     (if 0 < length (nxt (nodes s (head s)))
      then query_loop (nodes s) startKey endKey (nxt (nodes s (head s)) ! 0) []
      else Some (Panics IndexOutOfRange))"

datatype context_error = Canceled | DeadlineExceeded

datatype go_context = NeverDone | DoneAtSomeTime context_error

definition Query ::
  "go_context \<Rightarrow> (('k :: linorder, 'v) SkipList \<Rightarrow> ('k, 'v) SkipList) \<Rightarrow> ('k, 'v) SkipList \<Rightarrow> 'k \<Rightarrow> 'k
     \<Rightarrow> (context_error + ('k \<times> 'v) list) outcome option"
where
  "Query ctx writes s startKey endKey =
     (let oldOperations = totalOperations s in
      case query s startKey endKey of
        None \<Rightarrow> None
      | Some (Panics e) \<Rightarrow> Some (Panics e)
      | Some (Returns results) \<Rightarrow>
          if oldOperations = totalOperations (writes s) then Some (Returns (Inr results))
          else (case ctx of
                  NeverDone \<Rightarrow> None
                | DoneAtSomeTime err \<Rightarrow> Some (Returns (Inl err))))"

declare find_advance.simps [code]
declare Upsert_loop.simps [code]
declare Remove_loop.simps [code]
declare query_loop.simps [code]


text \<open>
  \<^verbatim>\<open>getInterval\<close> of package collection turns the \<^verbatim>\<open>interval\<close> parameter of a request
  into the two bounds handed to \<^verbatim>\<open>Query\<close>. \<open>SplitComma\<close> is \<^verbatim>\<open>strings.Split(s, ",")\<close>.
\<close>

fun SplitComma :: "string \<Rightarrow> string list" where
  "SplitComma [] = [[]]"
| "SplitComma (c # cs) =
     (if c = CHR '','' then [] # SplitComma cs
      else (case SplitComma cs of [] \<Rightarrow> [[c]] | seg # segs \<Rightarrow> (c # seg) # segs))"

definition getInterval :: "string \<Rightarrow> string \<times> string" where
  "getInterval intervalStr =
     (if \<not> (length intervalStr > 2 \<and> hd intervalStr = CHR ''['' \<and> last intervalStr = CHR '']'')
      then (STRINGMIN, STRINGMAX)
      else
        (let procArr = SplitComma (butlast (tl intervalStr)) in
         if length procArr \<noteq> 2 then (STRINGMIN, STRINGMAX)
         else (procArr ! 0, if procArr ! 1 = [] then STRINGMAX else procArr ! 1)))"


section \<open>Properties of the skip list\<close>

subsection \<open>The default bounds of string keys\<close>

text \<open>
  A string is its UTF-8 bytes and is compared byte by byte. \<^verbatim>\<open>string(rune(256))\<close> is the
  two bytes C4 80, so every string that starts with a byte above C4, or with C4 and a byte
  above 80, is greater: the encoding of any code point above 256, for instance U+0141
  (bytes C5 81). A collection is \<^verbatim>\<open>New(STRINGMIN, STRINGMAX, DEFAULT_LEVEL)\<close> with the nil
  document as the zero value.
\<close>

definition new_documents :: "(string, nat option) SkipList" where
  "new_documents = New None STRINGMIN STRINGMAX DEFAULT_LEVEL"

text \<open>
  Claim C8. The empty string is a minimum of the key order, but \<^verbatim>\<open>STRINGMAX\<close> is not a
  maximum: the name U+0141 is above it. On a new collection, \<^verbatim>\<open>Find\<close> of that name, an
  \<^verbatim>\<open>Upsert\<close> of it, and the \<^verbatim>\<open>Query\<close> of the interval parameter \<^verbatim>\<open>[\<close>U+0141\<^verbatim>\<open>,]\<close> all go
  past the tail sentinel and dereference its nil next pointer.
\<close>

theorem STRINGMAX_not_maximum:
  "STRINGMIN \<le> k \<and>
   STRINGMAX < [CHR 0xC5, CHR 0x81] \<and>
   getInterval [CHR ''['', CHR 0xC5, CHR 0x81, CHR '','', CHR '']''] = ([CHR 0xC5, CHR 0x81], STRINGMAX) \<and>
   Query ctx writes new_documents [CHR 0xC5, CHR 0x81] STRINGMAX = Some (Panics NilDereference) \<and>
   Find None new_documents [CHR 0xC5, CHR 0x81] = Some (Panics NilDereference) \<and>
   Upsert None coins [CHR 0xC5, CHR 0x81] check new_documents env
     = Some (Panics NilDereference, new_documents, env)"
proof -
  have 1: "STRINGMIN \<le> k" by (simp add: STRINGMIN_def)
  have 2: "STRINGMAX < [CHR 0xC5, CHR 0x81]" by code_simp
  have 3: "getInterval [CHR ''['', CHR 0xC5, CHR 0x81, CHR '','', CHR '']'']
             = ([CHR 0xC5, CHR 0x81], STRINGMAX)"
    by (simp add: getInterval_def)
  have q: "query new_documents [CHR 0xC5, CHR 0x81] STRINGMAX = Some (Panics NilDereference)"
    by code_simp
  have 4: "Query ctx writes new_documents [CHR 0xC5, CHR 0x81] STRINGMAX
             = Some (Panics NilDereference)"
    by (simp add: Query_def q)
  have f: "find new_documents [CHR 0xC5, CHR 0x81] = Some (Panics NilDereference)"
    by code_simp
  have 5: "Find None new_documents [CHR 0xC5, CHR 0x81] = Some (Panics NilDereference)"
    by (simp add: Find_def f)
  have 6: "Upsert None coins [CHR 0xC5, CHR 0x81] check new_documents env
             = Some (Panics NilDereference, new_documents, env)"
    by (simp add: Upsert_def Upsert_loop.simps Upsert_pass_def f)
  from 1 2 3 4 5 6 show ?thesis by blast
qed

subsection \<open>Query and concurrent writes\<close>

text \<open>
  Claim C2. When the operation counter has changed during the pass, \<^verbatim>\<open>Query\<close> does not
  run a second pass: it waits for the context. With a context that is never done it does not
  return; with a context that is done at some time it returns that context's error, also
  when the writes ended long before.
\<close>

theorem Query_never_retries:
  assumes "query s startKey endKey = Some (Returns results)"
    and "totalOperations (writes s) \<noteq> totalOperations s"
  shows "Query NeverDone writes s startKey endKey = None \<and>
         Query (DoneAtSomeTime err) writes s startKey endKey = Some (Returns (Inl err))"
  using assms by (simp add: Query_def)

definition put_key :: "string \<Rightarrow> (string, nat option) SkipList \<Rightarrow> (string, nat option) SkipList" where
  "put_key k s =
     (case Upsert None [] k (\<lambda>key cur ex e. (Inr (Some 0) :: unit + nat option, e)) s () of
        Some (r, s', e) \<Rightarrow> s'
      | None \<Rightarrow> s)"

theorem Query_never_retries_witness:
  "query (put_key ''a'' new_documents) STRINGMIN STRINGMAX = Some (Returns [(''a'', Some 0)]) \<and>
   totalOperations (put_key ''b'' (put_key ''a'' new_documents))
     \<noteq> totalOperations (put_key ''a'' new_documents) \<and>
   Query NeverDone (put_key ''b'') (put_key ''a'' new_documents) STRINGMIN STRINGMAX = None \<and>
   Query (DoneAtSomeTime Canceled) (put_key ''b'') (put_key ''a'' new_documents) STRINGMIN STRINGMAX
     = Some (Returns (Inl Canceled)) \<and>
   Query NeverDone id (put_key ''b'' (put_key ''a'' new_documents)) STRINGMIN STRINGMAX
     = Some (Returns (Inr [(''a'', Some 0), (''b'', Some 0)]))"
proof -
  have q: "query (put_key ''a'' new_documents) STRINGMIN STRINGMAX = Some (Returns [(''a'', Some 0)])"
    by code_simp
  have t: "totalOperations (put_key ''b'' (put_key ''a'' new_documents))
             \<noteq> totalOperations (put_key ''a'' new_documents)"
    by code_simp
  have r: "Query NeverDone id (put_key ''b'' (put_key ''a'' new_documents)) STRINGMIN STRINGMAX
             = Some (Returns (Inr [(''a'', Some 0), (''b'', Some 0)]))"
    by code_simp
  from Query_never_retries [where writes = "put_key ''b''" and err = Canceled, OF q t] q t r
  show ?thesis by simp
qed


section \<open>Documents and collections (packages document and collection)\<close>

text \<open>
  A document is its output (path, JSON body, metadata), the holder of its child collections
  and its subscribers. The handlers pass documents by pointer (\<^verbatim>\<open>*Document\<close> inside an
  \<^verbatim>\<open>IDocument\<close>), and which pointer a skip list stores matters, so documents live in a
  memory indexed by address next to the backing arrays of the JSON slices; an
  \<^verbatim>\<open>IDocument\<close> is an address or \<^verbatim>\<open>nil\<close>. The field \<^verbatim>\<open>output\<close> is \<open>outputs\<close> here, and its field \<^verbatim>\<open>Path\<close> is
  \<open>doc_Path\<close> (a patch has a \<^verbatim>\<open>Path\<close> too).
\<close>

record meta =
  CreatedBy :: string
  CreatedAt :: int
  LastModifiedBy :: string
  LastModifiedAt :: int

record docOutput =
  doc_Path :: string
  Doc :: json
  Meta :: meta

record Document =
  outputs :: docOutput
  children :: "(string, nat option) SkipList"
  SubscriberManager :: "Subscriber list"

record memory =
  documents_at :: "nat \<Rightarrow> Document"
  arrays :: store

text \<open>
  What the platform decides during one call of a handler: the Go runtime, the reading of the
  clock (\<^verbatim>\<open>time.Now().UnixMilli()\<close>), the draws of \<^verbatim>\<open>rand.Float32() < 0.5\<close>, the
  bytes \<^verbatim>\<open>json.Marshal\<close> produces for an update message (or its failure), and which
  subscribers take a message off a full channel in time.
\<close>

record platform =
  runtime :: go_runtime
  UnixMilli :: int
  Float32_draws :: "bool list"
  Marshal_message :: "store \<Rightarrow> string \<Rightarrow> docOutput \<Rightarrow> string option"
  received :: "string \<Rightarrow> bool"

definition newMeta :: "int \<Rightarrow> string \<Rightarrow> meta" where
  "newMeta now user =
     \<lparr>CreatedBy = user, CreatedAt = now, LastModifiedBy = user, LastModifiedAt = now\<rparr>"

definition Document_New :: "int \<Rightarrow> string \<Rightarrow> string \<Rightarrow> json \<Rightarrow> Document" where
  "Document_New now path user docBody =
     \<lparr>outputs = \<lparr>doc_Path = path, Doc = docBody, Meta = newMeta now user\<rparr>,
      children = New None STRINGMIN STRINGMAX DEFAULT_LEVEL,
      SubscriberManager = []\<rparr>"

definition OverwriteBody :: "int \<Rightarrow> Document \<Rightarrow> json \<Rightarrow> string \<Rightarrow> Document" where
  "OverwriteBody now d docBody name =
     d\<lparr>outputs := (outputs d)
          \<lparr>Meta := (Meta (outputs d))\<lparr>LastModifiedAt := now, LastModifiedBy := name\<rparr>,
           Doc := docBody\<rparr>,
       children := New None STRINGMIN STRINGMAX DEFAULT_LEVEL\<rparr>"

definition GetLastModified :: "Document \<Rightarrow> int" where
  "GetLastModified d = LastModifiedAt (Meta (outputs d))"

definition GetOriginalAuthor :: "Document \<Rightarrow> string" where
  "GetOriginalAuthor d = CreatedBy (Meta (outputs d))"

definition GetRawDoc :: "Document \<Rightarrow> docOutput" where
  "GetRawDoc d = outputs d"

definition GetJSONDoc :: "Document \<Rightarrow> json" where
  "GetJSONDoc d = Doc (outputs d)"

text \<open>
  \<^verbatim>\<open>ApplyPatches\<close>. The messages are built with \<^verbatim>\<open>fmt.Sprintf\<close> from the index of the
  patch and the text of the error; \<open>error_text\<close> lists the texts of package patcher and
  \<open>Itoa\<close> is the verb \<^verbatim>\<open>%d\<close>. The schema is its \<^verbatim>\<open>Validate\<close> method: the text of
  the error, or \<open>None\<close>.
\<close>

definition error_text :: "patch_error \<Rightarrow> string" where
  "error_text e =
     (case e of
        MissingLeadingSlash \<Rightarrow> ''missing leading slash''
      | KeyNotFound k \<Rightarrow> ''Key '' @ k @ '' not found in map''
      | InvalidPatchOperation \<Rightarrow> ''invalid patch operation''
      | InvalidIndex \<Rightarrow> ''invalid index''
      | IndexOutOfBounds \<Rightarrow> ''index out of bounds''
      | PathEndsInSlice \<Rightarrow> ''path ends in slice''
      | PatchingBool \<Rightarrow> ''patching a boolean is not supported''
      | PatchingNumber \<Rightarrow> ''patching a number is not supported''
      | PatchingString \<Rightarrow> ''patching a string is not supported''
      | PatchingNull \<Rightarrow> ''patching a null is not supported'')"

function Itoa :: "nat \<Rightarrow> string" where
  "Itoa n = (if n < 10 then [char_of (48 + n)] else Itoa (n div 10) @ [char_of (48 + n mod 10)])"
  by pat_completeness auto
termination
  by (relation "measure (\<lambda>n. n)") auto

declare Itoa.simps [simp del]

record PatchResponse =
  Uri :: string
  PatchFailed :: bool
  Message :: string

fun apply_patches ::
  "go_runtime \<Rightarrow> store \<Rightarrow> json \<Rightarrow> nat \<Rightarrow> Patch list \<Rightarrow> store \<times> (nat \<times> patch_error + json)" where
  "apply_patches rt st newDoc i [] = (st, Inr newDoc)"
| "apply_patches rt st newDoc i (patch # rest) =
     (case ApplyPatch rt st newDoc patch of
        (st', v, Some err) \<Rightarrow> (st', Inl (i, err))
      | (st', v, None) \<Rightarrow> apply_patches rt st' v (i + 1) rest)"

definition ApplyPatches ::
  "go_runtime \<Rightarrow> (store \<Rightarrow> json \<Rightarrow> string option) \<Rightarrow> Document \<Rightarrow> store \<Rightarrow> Patch list
     \<Rightarrow> store \<times> PatchResponse \<times> json"
where
  "ApplyPatches rt Validate d st patchData =
     (case apply_patches rt st (Doc (outputs d)) 0 patchData of
        (st', Inl (i, err)) \<Rightarrow>
          (st',
           \<lparr>Uri = [], PatchFailed = True,
            Message = ''Error applying patch '' @ Itoa i @ '': '' @ error_text err\<rparr>,
           JNull)
      | (st', Inr newDoc) \<Rightarrow>
          (case Validate st' newDoc of
             Some err \<Rightarrow>
               (st',
                \<lparr>Uri = [], PatchFailed = True,
                 Message = ''Patched document does not conform to the schema: '' @ err\<rparr>,
                JNull)
           | None \<Rightarrow>
               (st', \<lparr>Uri = [], PatchFailed = False, Message = ''Patches applied successfully''\<rparr>,
                newDoc)))"

text \<open>
  The response writer: the first \<^verbatim>\<open>WriteHeader\<close> fixes the status code and the headers
  (later calls and later \<^verbatim>\<open>Header().Set\<close> do not reach the client), and a \<^verbatim>\<open>Write\<close>
  before any \<^verbatim>\<open>WriteHeader\<close> sends 200. The bodies written are kept as the values
  that were marshalled.
\<close>

datatype response_body =
    ErrorString string
  | PutOutput string
  | PatchResponseBody PatchResponse

record ResponseWriter =
  statusCode :: "nat option"
  headers :: "(string \<times> string) list"
  written :: "response_body list"

definition NewRecorder :: ResponseWriter where
  "NewRecorder = \<lparr>statusCode = None, headers = [], written = []\<rparr>"

definition WriteHeader :: "nat \<Rightarrow> ResponseWriter \<Rightarrow> ResponseWriter" where
  "WriteHeader code w = (if statusCode w = None then w\<lparr>statusCode := Some code\<rparr> else w)"

definition Write :: "response_body \<Rightarrow> ResponseWriter \<Rightarrow> ResponseWriter" where
  "Write b w = (WriteHeader 200 w)\<lparr>written := written w @ [b]\<rparr>"

definition Header_Set :: "string \<Rightarrow> string \<Rightarrow> ResponseWriter \<Rightarrow> ResponseWriter" where
  "Header_Set k v w =
     (if statusCode w = None then w\<lparr>headers := (k, v) # filter (\<lambda>kv. fst kv \<noteq> k) (headers w)\<rparr>
      else w)"

definition ErrorResponse :: "ResponseWriter \<Rightarrow> string \<Rightarrow> nat \<Rightarrow> ResponseWriter" where
  "ErrorResponse w str code = Write (ErrorString str) (WriteHeader code w)"

text \<open>
  Type assertions to an interface succeed when the dynamic type has every method of the
  interface. The only implementation of \<^verbatim>\<open>IDocument\<close> is \<^verbatim>\<open>*Document\<close>;
  \<open>Document_methods\<close> lists the methods package document declares on it, and the interfaces
  are those of package interfaces. An assertion on a nil interface value fails.
\<close>

definition Document_methods :: "string list" where
  "Document_methods =
     [''GetDoc'', ''PutColl'', ''DeleteColl'', ''GetColl'', ''OverwriteBody'', ''ConcatPath'',
      ''ApplyPatches'', ''GetLastModified'', ''GetOriginalAuthor'', ''GetJSONBody'', ''GetRawDoc'',
      ''GetJSONDoc'', ''Subscribe'', ''NotifySubscribersUpdate'', ''NotifySubscribersDelete'']"

definition HasMetadata :: "string list" where
  "HasMetadata = [''GetOriginalAuthor'', ''GetLastModified'']"

definition Overwriteable :: "string list" where
  "Overwriteable = [''OverwriteBody'']"

definition Patchable :: "string list" where
  "Patchable = [''ApplyPatch'', ''ApplyPatches'', ''OverwriteBody'']"

definition type_assert :: "nat option \<Rightarrow> string list \<Rightarrow> bool" where
  "type_assert v iface =
     (case v of None \<Rightarrow> False | Some d \<Rightarrow> list_all (\<lambda>m. m \<in> set Document_methods) iface)"

text \<open>A collection: the skip list of its documents and its subscribers.\<close>

record Collection =
  documents :: "(string, nat option) SkipList"
  subscriberManager :: "Subscriber list"

definition Collection_New :: Collection where
  "Collection_New =
     \<lparr>documents = New None STRINGMIN STRINGMAX DEFAULT_LEVEL, subscriberManager = []\<rparr>"

definition determineInterval :: "Document \<Rightarrow> string" where
  "determineInterval d =
     (case GetJSONDoc d of
        JMap docData \<Rightarrow>
          (case fmlookup docData ''category'' of Some (JString category) \<Rightarrow> category | _ \<Rightarrow> ''general'')
      | _ \<Rightarrow> ''general'')"

text \<open>
  The tail that \<^verbatim>\<open>PutDoc\<close> and \<^verbatim>\<open>PatchDoc\<close> share: build the update message for a
  document and hand it to the subscribers, unless marshalling fails. A method call on a nil
  \<^verbatim>\<open>IDocument\<close> panics.
\<close>

definition notify_update ::
  "platform \<Rightarrow> string \<Rightarrow> nat option \<Rightarrow> Collection \<Rightarrow> memory \<Rightarrow> Collection outcome option" where
  "notify_update pf action doc c mem =
     (case doc of
        None \<Rightarrow> Some (Panics NilDereference)
      | Some d \<Rightarrow>
          (case Marshal_message pf (arrays mem) action (GetRawDoc (documents_at mem d)) of
             None \<Rightarrow> Some (Returns c)
           | Some updateMsg \<Rightarrow>
               (case NotifySubscribersUpdate (subscriberManager c) updateMsg
                       (determineInterval (documents_at mem d)) (received pf) of
                  None \<Rightarrow> None
                | Some subs \<Rightarrow> Some (Returns (c\<lparr>subscriberManager := subs\<rparr>)))))"

text \<open>
  \<^verbatim>\<open>PutDoc\<close>. The closure \<^verbatim>\<open>docUpsert\<close> runs inside \<^verbatim>\<open>Upsert\<close> and writes to the
  memory; a panic inside it is passed through \<^verbatim>\<open>Upsert\<close> as an error of its own kind.
  \<^verbatim>\<open>json.Marshal\<close> does not fail on a \<^verbatim>\<open>PutOutput\<close> or on the output of a document.
  When \<^verbatim>\<open>strconv.Atoi\<close> fails, its first result is 0 on a syntax error and the nearest
  64-bit integer on a range error, and \<^verbatim>\<open>PutDoc\<close> goes on after writing the error.
\<close>

datatype callback_error = Error string | CallbackPanic sl_panic

definition Atoi_value :: "string \<Rightarrow> int" where
  "Atoi_value s =
     (case Atoi s of
        Some v \<Rightarrow> v
      | None \<Rightarrow>
          (let neg = (s \<noteq> [] \<and> hd s = CHR ''-'');
               ds = (if s \<noteq> [] \<and> (hd s = CHR ''-'' \<or> hd s = CHR ''+'') then tl s else s)
           in if ds = [] then 0
              else (case digits_value 0 ds of
                      None \<Rightarrow> 0
                    | Some n \<Rightarrow> if neg then - (2 ^ 63) else 2 ^ 63 - 1)))"

definition docUpsert ::
  "int \<Rightarrow> int \<Rightarrow> nat option \<Rightarrow> string \<Rightarrow> nat option \<Rightarrow> bool \<Rightarrow> memory
     \<Rightarrow> (callback_error + nat option) \<times> memory"
where
  "docUpsert now timeStamp newDoc k currentValue exists mem =
     (if exists then
        (if type_assert newDoc HasMetadata \<and> type_assert newDoc Overwriteable then
           (case newDoc of
              None \<Rightarrow> (Inl (Error ''Bad overwrite''), mem)
            | Some n \<Rightarrow>
                (let matchOld = (timeStamp = GetLastModified (documents_at mem n)) in
                 if timeStamp \<noteq> - 1 \<and> \<not> matchOld then (Inl (Error ''Bad timestamp''), mem)
                 else
                   (let mem' = mem\<lparr>documents_at := (documents_at mem)
                                  (n := OverwriteBody now (documents_at mem n)
                                          (GetJSONDoc (documents_at mem n))
                                          (GetOriginalAuthor (documents_at mem n)))\<rparr>
                    in case currentValue of
                         None \<Rightarrow> (Inl (CallbackPanic NilDereference), mem')
                       | Some c \<Rightarrow> (Inr currentValue, mem'))))
         else (Inl (Error ''Bad overwrite''), mem))
      else
        (case newDoc of
           None \<Rightarrow> (Inl (CallbackPanic NilDereference), mem)
         | Some n \<Rightarrow> (Inr newDoc, mem)))"

definition PutDoc ::
  "platform \<Rightarrow> Collection \<Rightarrow> memory \<Rightarrow> ResponseWriter \<Rightarrow> string \<Rightarrow> string \<Rightarrow> string \<Rightarrow> nat option
     \<Rightarrow> (ResponseWriter \<times> Collection \<times> memory) outcome option"
where
  "PutDoc pf c mem w urlPath timeStampString path newDoc =
     (let jsonResponse = PutOutput urlPath;
          w1 = (if timeStampString \<noteq> [] \<and> Atoi timeStampString = None
                then ErrorResponse w ''Bad timestamp'' 400 else w);
          timeStamp = (if timeStampString \<noteq> [] then Atoi_value timeStampString else - 1)
      in case Upsert None (Float32_draws pf) path (docUpsert (UnixMilli pf) timeStamp newDoc)
                (documents c) mem of
           None \<Rightarrow> None
         | Some (Panics e, s', mem') \<Rightarrow> Some (Panics e)
         | Some (Returns (updated, Some (CallbackPanic e)), s', mem') \<Rightarrow> Some (Panics e)
         | Some (Returns (updated, Some (Error msg)), s', mem') \<Rightarrow>
             Some (Returns
               (if msg = ''Bad timestamp''
                  then ErrorResponse w1 ''collection PutDoc: bad timestamp'' 400
                else if msg = ''Bad overwrite''
                  then ErrorResponse w1 ''collection PutDoc: bad overwrite'' 400
                else ErrorResponse w1 (''collection PutDoc: error'' @ msg) 500,
                c\<lparr>documents := s'\<rparr>, mem'))
         | Some (Returns (updated, None), s', mem') \<Rightarrow>
             (let w2 = WriteHeader (if updated then 200 else 201) (Header_Set ''Location'' urlPath w1)
              in case notify_update pf ''update'' newDoc (c\<lparr>documents := s'\<rparr>) mem' of
                   None \<Rightarrow> None
                 | Some (Panics e) \<Rightarrow> Some (Panics e)
                 | Some (Returns c') \<Rightarrow> Some (Returns (Write jsonResponse w2, c', mem'))))"

text \<open>
  \<^verbatim>\<open>PatchDoc\<close>. \<open>patchData\<close> is the decoded request body, \<open>None\<close> when reading or
  decoding it fails. \<^verbatim>\<open>Header().Set\<close> comes after \<^verbatim>\<open>WriteHeader\<close> on the success path.
\<close>

definition patchUpsert ::
  "nat option \<Rightarrow> string \<Rightarrow> nat option \<Rightarrow> bool \<Rightarrow> memory \<Rightarrow> (callback_error + nat option) \<times> memory"
where
  "patchUpsert doc k currentValue exists mem =
     (if exists then (Inr doc, mem) else (Inl (Error ''Document not found''), mem))"

definition PatchDoc ::
  "platform \<Rightarrow> (store \<Rightarrow> json \<Rightarrow> string option) \<Rightarrow> Collection \<Rightarrow> memory \<Rightarrow> ResponseWriter \<Rightarrow> string
     \<Rightarrow> Patch list option \<Rightarrow> string \<Rightarrow> string
     \<Rightarrow> (ResponseWriter \<times> Collection \<times> memory) outcome option"
where
  "PatchDoc pf schema c mem w urlPath body docPath name =
     (case Find None (documents c) docPath of
        None \<Rightarrow> None
      | Some (Panics e) \<Rightarrow> Some (Panics e)
      | Some (Returns (doc, found)) \<Rightarrow>
          if \<not> found then Some (Returns (ErrorResponse w ''Document not found'' 404, c, mem))
          else
            (case body of
               None \<Rightarrow> Some (Returns (ErrorResponse w ''Invalid patch format'' 400, c, mem))
             | Some patchData \<Rightarrow>
                 if \<not> type_assert doc Patchable
                 then Some (Returns (ErrorResponse w ''Document cant be patched'' 400, c, mem))
                 else
                   (case doc of
                      None \<Rightarrow> Some (Panics NilDereference)
                    | Some d \<Rightarrow>
                        (case ApplyPatches (runtime pf) schema (documents_at mem d) (arrays mem)
                                patchData of
                           (st', response, newDoc) \<Rightarrow>
                             (let patchResponse = response\<lparr>Uri := urlPath\<rparr>;
                                  jsonResponse = PatchResponseBody patchResponse;
                                  mem1 = mem\<lparr>arrays := st'\<rparr>
                              in if \<not> PatchFailed patchResponse then
                                   (let mem2 = mem1\<lparr>documents_at := (documents_at mem1)
                                                  (d := OverwriteBody (UnixMilli pf) (documents_at mem1 d)
                                                          newDoc name)\<rparr>
                                    in case Upsert None (Float32_draws pf) docPath (patchUpsert doc)
                                              (documents c) mem2 of
                                         None \<Rightarrow> None
                                       | Some (Panics e, s', mem') \<Rightarrow> Some (Panics e)
                                       | Some (Returns (updated, err), s', mem') \<Rightarrow>
                                           if \<not> updated then
                                             Some (Returns (ErrorResponse w ''Internal server error'' 500,
                                                            c\<lparr>documents := s'\<rparr>, mem'))
                                           else
                                             (case notify_update pf ''update'' doc
                                                     (c\<lparr>documents := s'\<rparr>) mem' of
                                                None \<Rightarrow> None
                                              | Some (Panics e) \<Rightarrow> Some (Panics e)
                                              | Some (Returns c') \<Rightarrow>
                                                  Some (Returns
                                                    (Write jsonResponse
                                                       (Header_Set ''location'' urlPath (WriteHeader 200 w)),
                                                     c', mem'))))
                                 else Some (Returns (Write jsonResponse (WriteHeader 400 w), c, mem1)))))))"


section \<open>Properties of PUT and PATCH on documents\<close>

text \<open>
  A platform for the examples: the clock reads \<open>now\<close>, new nodes get level 0, the update
  message is its action, and no subscriber is slow.
\<close>

definition platform_at :: "int \<Rightarrow> platform" where
  "platform_at now =
     \<lparr>runtime = rt0, UnixMilli = now, Float32_draws = [],
      Marshal_message = (\<lambda>st action out. Some action), received = (\<lambda>_. False)\<rparr>"

text \<open>
  Two documents for the path \<^verbatim>\<open>/d1\<close>: at address 0 the one alice made at time 1000 with
  body \<^verbatim>\<open>{"prop":100}\<close>, at address 1 the one the handler makes from bob's request at
  time 5000 with body \<^verbatim>\<open>{"prop":200}\<close>.
\<close>

definition alice_doc :: Document where
  "alice_doc = Document_New 1000 ''/d1'' ''alice'' (JMap (fmupd ''prop'' (JNumber 100) fmempty))"

definition bob_doc :: Document where
  "bob_doc = Document_New 5000 ''/d1'' ''bob'' (JMap (fmupd ''prop'' (JNumber 200) fmempty))"

definition two_documents :: memory where
  "two_documents = \<lparr>documents_at = (\<lambda>_. bob_doc)(0 := alice_doc), arrays = []\<rparr>"

text \<open>
  Claim C1. alice's document is put at \<^verbatim>\<open>d1\<close> of a new collection (201). Then bob's PUT
  to the same name, at time 5000:
  \<^item> without a timestamp it is answered 200, but the collection still holds alice's document
    at address 0, with her body, \<^verbatim>\<open>lastModifiedAt\<close> 1000 and \<^verbatim>\<open>lastModifiedBy\<close> alice;
    what \<^verbatim>\<open>OverwriteBody\<close> changed is bob's own new document;
  \<^item> with \<^verbatim>\<open>timestamp=1000\<close>, the stored document's \<^verbatim>\<open>lastModifiedAt\<close>, it is refused
    with 400;
  \<^item> with \<^verbatim>\<open>timestamp=5000\<close>, which is not the stored document's \<^verbatim>\<open>lastModifiedAt\<close>
    but that of the new document, it is answered 200;
  \<^item> with a timestamp that is not a number, 400 is written first and the upsert still runs.
\<close>

theorem PutDoc_existing_not_overwritten:
  "(case PutDoc (platform_at 1000) Collection_New two_documents NewRecorder ''/v1/db/d1'' [] ''d1''
           (Some 0) of
      Some (Returns (w1, c1, m1)) \<Rightarrow>
        statusCode w1 = Some 201 \<and>
        Find None (documents c1) ''d1'' = Some (Returns (Some 0, True)) \<and>
        (case PutDoc (platform_at 5000) c1 m1 NewRecorder ''/v1/db/d1'' [] ''d1'' (Some 1) of
           Some (Returns (w2, c2, m2)) \<Rightarrow>
             statusCode w2 = Some 200 \<and> written w2 = [PutOutput ''/v1/db/d1''] \<and>
             Find None (documents c2) ''d1'' = Some (Returns (Some 0, True)) \<and>
             outputs (documents_at m2 0) = outputs alice_doc \<and>
             outputs (documents_at m2 1)
               = (outputs bob_doc)\<lparr>Meta := (Meta (outputs bob_doc))\<lparr>LastModifiedAt := 5000\<rparr>\<rparr>
         | _ \<Rightarrow> False) \<and>
        (case PutDoc (platform_at 5000) c1 m1 NewRecorder ''/v1/db/d1'' ''1000'' ''d1'' (Some 1) of
           Some (Returns (w2, c2, m2)) \<Rightarrow>
             GetLastModified (documents_at m1 0) = 1000 \<and>
             statusCode w2 = Some 400 \<and>
             written w2 = [ErrorString ''collection PutDoc: bad timestamp''] \<and>
             outputs (documents_at m2 0) = outputs alice_doc
         | _ \<Rightarrow> False) \<and>
        (case PutDoc (platform_at 5000) c1 m1 NewRecorder ''/v1/db/d1'' ''5000'' ''d1'' (Some 1) of
           Some (Returns (w2, c2, m2)) \<Rightarrow>
             statusCode w2 = Some 200 \<and> outputs (documents_at m2 0) = outputs alice_doc
         | _ \<Rightarrow> False) \<and>
        (case PutDoc (platform_at 5000) c1 m1 NewRecorder ''/v1/db/d2'' ''soon'' ''d2'' (Some 1) of
           Some (Returns (w2, c2, m2)) \<Rightarrow>
             statusCode w2 = Some 400 \<and>
             written w2 = [ErrorString ''Bad timestamp'', PutOutput ''/v1/db/d2''] \<and>
             Find None (documents c2) ''d2'' = Some (Returns (Some 1, True))
         | _ \<Rightarrow> False)
    | _ \<Rightarrow> False)"
  by code_simp


text \<open>
  \<^verbatim>\<open>*Document\<close> has the methods of \<^verbatim>\<open>HasMetadata\<close> and of \<^verbatim>\<open>Overwriteable\<close>, but
  package document declares no method \<^verbatim>\<open>ApplyPatch\<close>, which \<^verbatim>\<open>Patchable\<close> asks for.
\<close>

lemma type_assert_Document:
  "type_assert (Some d) HasMetadata" "type_assert (Some d) Overwriteable"
  "\<not> type_assert doc Patchable"
  by (simp_all add: type_assert_def HasMetadata_def Overwriteable_def Patchable_def
        Document_methods_def split: option.split)

text \<open>
  \<^verbatim>\<open>ApplyPatches\<close> alone, on alice's document: the message of a successful run, and the
  message of a failing one.
\<close>

lemma Itoa_digit: "Itoa 0 = ''0''" "Itoa (Suc 0) = ''1''"
  by code_simp+

lemma ApplyPatches_messages:
  "ApplyPatches rt0 (\<lambda>st v. None) alice_doc []
     [\<lparr>Operation = ''ObjectAdd'', Path = ''/a'', Value = JNumber 100\<rparr>]
   = ([], \<lparr>Uri = [], PatchFailed = False, Message = ''Patches applied successfully''\<rparr>,
      JMap (fmupd ''a'' (JNumber 100) (fmupd ''prop'' (JNumber 100) fmempty)))"
  "ApplyPatches rt0 (\<lambda>st v. None) alice_doc []
     [\<lparr>Operation = ''ObjectAdd'', Path = ''/x/y'', Value = JNumber 5\<rparr>]
   = ([], \<lparr>Uri = [], PatchFailed = True,
           Message = ''Error applying patch 0: Key x not found in map''\<rparr>, JNull)"
  by (simp_all add: ApplyPatches_def ApplyPatch_def new_visitor_def CutPrefix_def Accept.simps
        patchVisitor_Map.simps SplitAfterN2_def TrimSuffix_def alice_doc_def Document_New_def
        Itoa_digit error_text_def)

text \<open>
  A patch list that fails at its second patch after an \<^verbatim>\<open>ArrayRemove\<close>: the body
  \<^verbatim>\<open>{"a":[1,2,3]}\<close> has its array in the backing array at address 0;
  \<^verbatim>\<open>append(slice[:i], slice[i+1:]...)\<close> has shifted the cells of that array, so the
  document, whose body still is the slice of its first three cells, reads \<^verbatim>\<open>[2,3,3]\<close>.
\<close>

lemma ApplyPatches_failed_after_ArrayRemove:
  "ApplyPatches rt0 (\<lambda>st v. None)
     (Document_New 1000 ''/d1'' ''alice'' (JMap (fmupd ''a'' (JSlice 0 3) fmempty)))
     [[JNumber 1, JNumber 2, JNumber 3]]
     [\<lparr>Operation = ''ArrayRemove'', Path = ''/a'', Value = JNumber 1\<rparr>,
      \<lparr>Operation = ''ObjectAdd'', Path = ''/x/y'', Value = JNumber 5\<rparr>]
   = ([[JNumber 2, JNumber 3, JNumber 3]],
      \<lparr>Uri = [], PatchFailed = True, Message = ''Error applying patch 1: Key x not found in map''\<rparr>,
      JNull)"
  by (simp add: ApplyPatches_def ApplyPatch_def new_visitor_def CutPrefix_def Accept.simps
        patchVisitor_Map.simps patchVisitor_Slice.simps SplitAfterN2_def TrimSuffix_def
        Document_New_def Itoa_digit error_text_def rt0_def Let_def)

text \<open>
  Claim C5. The type assertion \<^verbatim>\<open>interface{}(doc).(interfaces.Patchable)\<close> of
  \<^verbatim>\<open>PatchDoc\<close> fails for every document. So every PATCH of an existing document with a
  well-formed body, whatever its patches, is answered 400 with the JSON string
  \<^verbatim>\<open>"Document cant be patched"\<close>, and neither the collection nor the memory changes.
\<close>

theorem PatchDoc_cant_be_patched:
  assumes "Find None (documents c) docPath = Some (Returns (doc, True))"
  shows "PatchDoc pf schema c mem w urlPath (Some patchData) docPath name
           = Some (Returns (ErrorResponse w ''Document cant be patched'' 400, c, mem))"
  using assms by (simp add: PatchDoc_def type_assert_Document)

theorem PatchDoc_cant_be_patched_witness:
  "Find None (documents \<lparr>documents = put_key ''d1'' new_documents, subscriberManager = []\<rparr>) ''d1''
     = Some (Returns (Some 0, True)) \<and>
   PatchDoc (platform_at 5000) (\<lambda>st v. None)
     \<lparr>documents = put_key ''d1'' new_documents, subscriberManager = []\<rparr> two_documents NewRecorder
     ''/v1/db/d1'' (Some [\<lparr>Operation = ''ObjectAdd'', Path = ''/a'', Value = JNumber 100\<rparr>])
     ''d1'' ''bob''
   = Some (Returns (\<lparr>statusCode = Some 400, headers = [],
                     written = [ErrorString ''Document cant be patched'']\<rparr>,
                    \<lparr>documents = put_key ''d1'' new_documents, subscriberManager = []\<rparr>,
                    two_documents))"
proof -
  have f: "Find None (documents \<lparr>documents = put_key ''d1'' new_documents, subscriberManager = []\<rparr>)
             ''d1'' = Some (Returns (Some 0, True))"
    by code_simp
  from PatchDoc_cant_be_patched [OF f] f show ?thesis
    by (simp add: ErrorResponse_def Write_def WriteHeader_def NewRecorder_def)
qed


section \<open>The skip list against a reference map\<close>

subsection \<open>Sequences of operations and the reference map\<close>

text \<open>
  A sequence of operations on one skip list, run one after the other, with what each of them
  returns. A panic or an operation that does not return ends the run.
\<close>

datatype ('k, 'v, 'e, 'x) operation =
    DoUpsert 'k "bool list" "'k \<Rightarrow> 'v \<Rightarrow> bool \<Rightarrow> 'e \<Rightarrow> ('x + 'v) \<times> 'e"
  | DoRemove 'k
  | DoFind 'k

datatype ('v, 'x) observation =
    Upserted bool "'x option"
  | Removed 'v bool
  | Found 'v bool

fun key_of :: "('k, 'v, 'e, 'x) operation \<Rightarrow> 'k" where
  "key_of (DoUpsert k coins check) = k"
| "key_of (DoRemove k) = k"
| "key_of (DoFind k) = k"

fun run ::
  "'v \<Rightarrow> ('k :: linorder, 'v, 'e, 'x) operation list \<Rightarrow> ('k, 'v) SkipList \<Rightarrow> 'e
     \<Rightarrow> (('v, 'x) observation list \<times> 'e) outcome option"
where
  "run zero [] s env = Some (Returns ([], env))"
| "run zero (DoUpsert k coins check # ops) s env =
     (case Upsert zero coins k check s env of
        None \<Rightarrow> None
      | Some (Panics e, s', env') \<Rightarrow> Some (Panics e)
      | Some (Returns (updated, err), s', env') \<Rightarrow>
          (case run zero ops s' env' of
             None \<Rightarrow> None
           | Some (Panics e) \<Rightarrow> Some (Panics e)
           | Some (Returns (obs, env'')) \<Rightarrow> Some (Returns (Upserted updated err # obs, env''))))"
| "run zero (DoRemove k # ops) s env =
     (case Remove zero k s of
        None \<Rightarrow> None
      | Some (Panics e, s') \<Rightarrow> Some (Panics e)
      | Some (Returns (v, removed), s') \<Rightarrow>
          (case run zero ops s' env of
             None \<Rightarrow> None
           | Some (Panics e) \<Rightarrow> Some (Panics e)
           | Some (Returns (obs, env')) \<Rightarrow> Some (Returns (Removed v removed # obs, env'))))"
| "run zero (DoFind k # ops) s env =
     (case Find zero s k of
        None \<Rightarrow> None
      | Some (Panics e) \<Rightarrow> Some (Panics e)
      | Some (Returns (v, found)) \<Rightarrow>
          (case run zero ops s env of
             None \<Rightarrow> None
           | Some (Panics e) \<Rightarrow> Some (Panics e)
           | Some (Returns (obs, env')) \<Rightarrow> Some (Returns (Found v found # obs, env'))))"

text \<open>
  The reference: a map from keys to values. An upsert asks the callback with the current
  value (the zero value when there is none) and stores what it returns, unless it returns an
  error; a remove deletes the key and returns its value; a find reads.
\<close>

definition ref_upsert ::
  "'v \<Rightarrow> 'k \<Rightarrow> ('k \<Rightarrow> 'v \<Rightarrow> bool \<Rightarrow> 'e \<Rightarrow> ('x + 'v) \<times> 'e) \<Rightarrow> ('k \<rightharpoonup> 'v) \<Rightarrow> 'e
     \<Rightarrow> (bool \<times> 'x option) \<times> ('k \<rightharpoonup> 'v) \<times> 'e"
where
  "ref_upsert zero k check m env =
     (case m k of
        Some current \<Rightarrow>
          (case check k current True env of
             (Inl err, env') \<Rightarrow> ((False, Some err), m, env')
           | (Inr v, env') \<Rightarrow> ((True, None), m(k \<mapsto> v), env'))
      | None \<Rightarrow>
          (case check k zero False env of
             (Inl err, env') \<Rightarrow> ((False, Some err), m, env')
           | (Inr v, env') \<Rightarrow> ((False, None), m(k \<mapsto> v), env')))"

definition ref_find :: "'v \<Rightarrow> ('k \<rightharpoonup> 'v) \<Rightarrow> 'k \<Rightarrow> 'v \<times> bool" where
  "ref_find zero m k = (case m k of Some v \<Rightarrow> (v, True) | None \<Rightarrow> (zero, False))"

fun ref_run ::
  "'v \<Rightarrow> ('k, 'v, 'e, 'x) operation list \<Rightarrow> ('k \<rightharpoonup> 'v) \<Rightarrow> 'e \<Rightarrow> ('v, 'x) observation list \<times> 'e"
where
  "ref_run zero [] m env = ([], env)"
| "ref_run zero (DoUpsert k coins check # ops) m env =
     (case ref_upsert zero k check m env of
        ((updated, err), m', env') \<Rightarrow>
          (case ref_run zero ops m' env' of
             (obs, env'') \<Rightarrow> (Upserted updated err # obs, env'')))"
| "ref_run zero (DoRemove k # ops) m env =
     (case ref_run zero ops (m(k := None)) env of
        (obs, env') \<Rightarrow> (Removed (fst (ref_find zero m k)) (snd (ref_find zero m k)) # obs, env'))"
| "ref_run zero (DoFind k # ops) m env =
     (case ref_run zero ops m env of
        (obs, env') \<Rightarrow> (Found (fst (ref_find zero m k)) (snd (ref_find zero m k)) # obs, env'))"


subsection \<open>The skip list as a map\<close>

text \<open>
  The nodes between the sentinels are listed by address, in the order of the bottom level.
  \<open>step h l a b\<close>: in the heap \<open>h\<close>, the pointer of level \<open>l\<close> of node \<open>a\<close> exists and leads
  to \<open>b\<close>. \<open>lvl h l a\<close>: node \<open>a\<close> takes part in level \<open>l\<close>.
\<close>

definition step :: "(nat \<Rightarrow> ('k, 'v) node) \<Rightarrow> nat \<Rightarrow> nat \<Rightarrow> nat \<Rightarrow> bool" where
  "step h l a b \<longleftrightarrow> l < length (nxt (h a)) \<and> nxt (h a) ! l = Some b"

definition lvl :: "(nat \<Rightarrow> ('k, 'v) node) \<Rightarrow> nat \<Rightarrow> nat \<Rightarrow> bool" where
  "lvl h l a \<longleftrightarrow> int l \<le> topLevel (h a)"

text \<open>
  The invariant of a skip list made by \<^verbatim>\<open>New\<close> with \<open>L\<close> levels and the upper bound
  \<open>maxKey\<close>, between two operations: the head is at address 0 and the tail at address 1; the
  nodes \<open>ns\<close> are distinct, allocated, unmarked, fully linked, with a level below \<open>L\<close> and as
  many pointers as their level asks for; their keys increase strictly and stay below
  \<open>maxKey\<close>; and at each level the pointers lead from the head through the nodes of that
  level, in order, to the tail.
\<close>

definition sl_inv :: "'k :: linorder \<Rightarrow> nat \<Rightarrow> ('k, 'v) SkipList \<Rightarrow> nat list \<Rightarrow> bool" where
  "sl_inv maxKey L s ns \<longleftrightarrow>
     head s = 0 \<and> 0 < L \<and> 2 \<le> allocated s \<and>
     topLevel (nodes s 0) = int L - 1 \<and> length (nxt (nodes s 0)) = L \<and> \<not> marked (nodes s 0) \<and>
     key (nodes s 1) = maxKey \<and> \<not> marked (nodes s 1) \<and>
     distinct ns \<and>
     (\<forall>a\<in>set ns. 2 \<le> a \<and> a < allocated s \<and> \<not> marked (nodes s a) \<and> fullyLinked (nodes s a) \<and>
        0 \<le> topLevel (nodes s a) \<and> topLevel (nodes s a) < int L \<and>
        length (nxt (nodes s a)) = nat (topLevel (nodes s a) + 1) \<and> key (nodes s a) < maxKey) \<and>
     sorted_wrt (\<lambda>a b. key (nodes s a) < key (nodes s b)) ns \<and>
     (\<forall>l<L. successively (step (nodes s) l) (0 # filter (lvl (nodes s) l) ns @ [1]))"

text \<open>The map a skip list stands for.\<close>

definition abstraction :: "(nat \<Rightarrow> ('k, 'v) node) \<Rightarrow> nat list \<Rightarrow> 'k \<Rightarrow> 'v option" where
  "abstraction h ns k = map_option (\<lambda>a. val (h a)) (List.find (\<lambda>a. key (h a) = k) ns)"

text \<open>The level \<^verbatim>\<open>find\<close> reports, given at which levels it stopped on the key.\<close>

fun found_level :: "(nat \<Rightarrow> bool) \<Rightarrow> nat \<Rightarrow> int \<Rightarrow> int" where
  "found_level hit 0 fl = fl"
| "found_level hit (Suc l) fl =
     found_level hit l (if hit l \<and> (fl = - 1 \<or> fl < int l) then int l else fl)"

lemma found_level_none: "(\<And>l. l < n \<Longrightarrow> \<not> hit l) \<Longrightarrow> found_level hit n fl = fl"
  by (induction n arbitrary: fl) auto

lemma found_level_above: "int n \<le> fl \<Longrightarrow> found_level hit n fl = fl"
  by (induction n arbitrary: fl) auto

lemma found_level_top:
  "(\<And>l. l < n \<Longrightarrow> hit l \<longleftrightarrow> l \<le> t) \<Longrightarrow> t < n \<Longrightarrow> found_level hit n (- 1) = int t"
proof (induction n)
  case 0
  then show ?case by simp
next
  case (Suc n)
  show ?case
  proof (cases "t = n")
    case True
    then have "hit n" using Suc.prems(1) [of n] by simp
    then show ?thesis using True by (simp add: found_level_above)
  next
    case False
    then have t: "t < n" using Suc.prems(2) by simp
    then have "\<not> hit n" using Suc.prems(1) [of n] by simp
    moreover have "found_level hit n (- 1) = int t"
      using Suc.prems(1) t by (intro Suc.IH) auto
    ultimately show ?thesis by simp
  qed
qed

lemma sorted_split:
  "sorted_wrt (\<lambda>a b. f a < f b) ns \<Longrightarrow>
   \<exists>lo hi. ns = lo @ hi \<and> (\<forall>a\<in>set lo. f a < k) \<and> (\<forall>a\<in>set hi. \<not> f a < (k :: 'k :: linorder))"
proof (induction ns)
  case Nil
  then show ?case by simp
next
  case (Cons a ns)
  show ?case
  proof (cases "f a < k")
    case True
    from Cons obtain lo hi where "ns = lo @ hi" "\<forall>a\<in>set lo. f a < k" "\<forall>a\<in>set hi. \<not> f a < k"
      by auto
    then have "a # ns = (a # lo) @ hi \<and> (\<forall>a\<in>set (a # lo). f a < k) \<and> (\<forall>a\<in>set hi. \<not> f a < k)"
      using True by simp
    then show ?thesis by blast
  next
    case False
    then have "\<forall>b\<in>set (a # ns). \<not> f b < k" using Cons.prems by auto
    then have "a # ns = [] @ (a # ns) \<and> (\<forall>a\<in>set []. f a < k) \<and> (\<forall>b\<in>set (a # ns). \<not> f b < k)"
      by simp
    then show ?thesis by blast
  qed
qed

lemma last_filter_split:
  assumes "\<And>a. Q a \<Longrightarrow> R a"
  shows "\<exists>Y1 Y2. x # filter R lo = Y1 @ last (x # filter Q lo) # Y2"
proof (induction lo rule: rev_induct)
  case Nil
  have "x # filter R [] = [] @ last (x # filter Q []) # []" by simp
  then show ?case by blast
next
  case (snoc a lo)
  then obtain Y1 Y2 where IH: "x # filter R lo = Y1 @ last (x # filter Q lo) # Y2" by blast
  show ?case
  proof (cases "Q a")
    case True
    then have "R a" by (rule assms)
    then have "x # filter R (lo @ [a]) = (x # filter R lo) @ last (x # filter Q (lo @ [a])) # []"
      using True by simp
    then show ?thesis by blast
  next
    case False
    show ?thesis
    proof (cases "R a")
      case True
      then have "x # filter R (lo @ [a]) = Y1 @ last (x # filter Q (lo @ [a])) # (Y2 @ [a])"
        using False IH by simp
      then show ?thesis by blast
    next
      case nR: False
      then have "x # filter R (lo @ [a]) = Y1 @ last (x # filter Q (lo @ [a])) # Y2"
        using False IH by simp
      then show ?thesis by blast
    qed
  qed
qed

lemma successively_prefix_hd:
  "successively P (xs @ ys) \<Longrightarrow> ys \<noteq> [] \<Longrightarrow> successively P (xs @ [hd ys])"
  by (cases ys) (auto simp: successively_append_iff)

text \<open>
  The inner loop of \<^verbatim>\<open>find\<close> along a level: from \<open>p\<close> it passes the nodes \<open>bs\<close>, whose keys
  are below \<open>k\<close>, and stops at the first node \<open>c\<close> whose key is not.
\<close>

lemma find_advance_chain:
  assumes "successively (step h l) (p # bs @ [c])" and "\<forall>b\<in>set bs. key (h b) < k"
    and "\<not> key (h c) < k"
  shows "find_advance h l k p (nxt (h p) ! l) = Some (Returns (last (p # bs), c))"
  using assms
proof (induction bs arbitrary: p)
  case Nil
  then show ?case by (simp add: step_def find_advance.simps)
next
  case (Cons b bs)
  from Cons.prems have pb: "nxt (h p) ! l = Some b" and rest: "successively (step h l) (b # bs @ [c])"
    by (auto simp: step_def)
  from rest have bl: "l < length (nxt (h b))" by (cases bs) (auto simp: step_def)
  have "find_advance h l k b (nxt (h b) ! l) = Some (Returns (last (b # bs), c))"
    using Cons.prems rest by (intro Cons.IH) auto
  then show ?case using pb bl Cons.prems(2) by (subst find_advance.simps) simp
qed


text \<open>
  \<^verbatim>\<open>find\<close>, for a key \<open>k\<close> that splits the nodes into those below it (\<open>lo\<close>) and the
  others (\<open>hi\<close>): at each level the predecessor is the last node of that level in \<open>lo\<close> (or
  the head) and the successor is the first node of that level in \<open>hi\<close> (or the tail).
\<close>

lemma find_levels_spec:
  assumes path: "\<And>l. l < L \<Longrightarrow> successively (step h l) (0 # filter (lvl h l) (lo @ hi) @ [1])"
    and lo: "\<forall>a\<in>set lo. key (h a) < k" and hi: "\<forall>a\<in>set hi. \<not> key (h a) < k"
    and tail: "\<not> key (h 1) < k" and n: "n \<le> L"
  shows "find_levels h k n (last (0 # filter (lvl h n) lo)) fl preds succs =
           Some (Returns
             (found_level (\<lambda>l. key (h (hd (filter (lvl h l) hi @ [1]))) = k) n fl,
              map (\<lambda>l. last (0 # filter (lvl h l) lo)) [0..<n] @ preds,
              map (\<lambda>l. hd (filter (lvl h l) hi @ [1])) [0..<n] @ succs))"
  using n
proof (induction n arbitrary: fl preds succs)
  case 0
  then show ?case by simp
next
  case (Suc n)
  let ?p = "last (0 # filter (lvl h (Suc n)) lo)"
  let ?Z = "filter (lvl h n) hi"
  let ?c = "hd (?Z @ [1])"
  have nL: "n < L" using Suc.prems by simp
  have "\<And>a. lvl h (Suc n) a \<Longrightarrow> lvl h n a" by (simp add: lvl_def)
  from last_filter_split [of "lvl h (Suc n)" "lvl h n" 0 lo, OF this]
  obtain Y1 Y2 where Y: "0 # filter (lvl h n) lo = Y1 @ ?p # Y2" by blast
  have Y2lo: "set Y2 \<subseteq> set lo"
  proof -
    have "set Y2 \<subseteq> set (tl (Y1 @ ?p # Y2))" by (cases Y1) auto
    also have "\<dots> = set (filter (lvl h n) lo)" using Y by (metis list.sel(3))
    finally show ?thesis by auto
  qed
  have "successively (step h n) ((Y1 @ ?p # Y2) @ ?Z @ [1])"
    using path [OF nL] Y by (metis append_Cons append_assoc filter_append)
  then have "successively (step h n) ((?p # Y2) @ (?Z @ [1]))"
    by (simp add: successively_append_iff)
  then have ch: "successively (step h n) (?p # Y2 @ [?c])"
    using successively_prefix_hd [of "step h n" "?p # Y2" "?Z @ [1]"] by simp
  have cin: "?c \<in> set hi \<or> ?c = 1"
  proof (cases ?Z)
    case Nil
    then show ?thesis by simp
  next
    case (Cons z zs)
    then have "z \<in> set ?Z" by simp
    then have "z \<in> set hi" by simp
    then show ?thesis using Cons by simp
  qed
  then have ck: "\<not> key (h ?c) < k" using hi tail by auto
  have adv: "find_advance h n k ?p (nxt (h ?p) ! n) = Some (Returns (last (?p # Y2), ?c))"
    using ch Y2lo lo ck by (intro find_advance_chain) auto
  have lastp: "last (?p # Y2) = last (0 # filter (lvl h n) lo)"
    using Y by (metis last_appendR list.distinct(1))
  have len: "n < length (nxt (h ?p))"
    using ch by (cases Y2) (auto simp: step_def)
  have IH: "find_levels h k n (last (0 # filter (lvl h n) lo))
              (if key (h ?c) = k \<and> (fl = - 1 \<or> fl < int n) then int n else fl)
              (last (0 # filter (lvl h n) lo) # preds) (?c # succs) =
            Some (Returns
             (found_level (\<lambda>l. key (h (hd (filter (lvl h l) hi @ [1]))) = k) n
                (if key (h ?c) = k \<and> (fl = - 1 \<or> fl < int n) then int n else fl),
              map (\<lambda>l. last (0 # filter (lvl h l) lo)) [0..<n] @ last (0 # filter (lvl h n) lo) # preds,
              map (\<lambda>l. hd (filter (lvl h l) hi @ [1])) [0..<n] @ ?c # succs))"
    using Suc.prems by (intro Suc.IH) simp
  show ?case
    using len adv lastp IH by simp
qed


definition PREDS :: "(nat \<Rightarrow> ('k, 'v) node) \<Rightarrow> nat list \<Rightarrow> nat \<Rightarrow> nat list" where
  "PREDS h lo L = map (\<lambda>l. last (0 # filter (lvl h l) lo)) [0..<L]"

definition SUCCS :: "(nat \<Rightarrow> ('k, 'v) node) \<Rightarrow> nat list \<Rightarrow> nat \<Rightarrow> nat list" where
  "SUCCS h hi L = map (\<lambda>l. hd (filter (lvl h l) hi @ [1])) [0..<L]"

definition FOUND :: "(nat \<Rightarrow> ('k, 'v) node) \<Rightarrow> nat list \<Rightarrow> 'k \<Rightarrow> nat \<Rightarrow> int" where
  "FOUND h hi k L = found_level (\<lambda>l. key (h (hd (filter (lvl h l) hi @ [1]))) = k) L (- 1)"

lemma find_spec:
  assumes inv: "sl_inv maxKey L s (lo @ hi)"
    and lo: "\<forall>a\<in>set lo. key (nodes s a) < k" and hi: "\<forall>a\<in>set hi. \<not> key (nodes s a) < k"
    and k: "k < maxKey"
  shows "find s k = Some (Returns (FOUND (nodes s) hi k L, PREDS (nodes s) lo L, SUCCS (nodes s) hi L))"
proof -
  let ?h = "nodes s"
  have path: "\<And>l. l < L \<Longrightarrow> successively (step ?h l) (0 # filter (lvl ?h l) (lo @ hi) @ [1])"
    using inv by (simp add: sl_inv_def)
  have tail: "\<not> key (?h 1) < k" using inv k by (simp add: sl_inv_def)
  have "\<forall>a\<in>set (lo @ hi). topLevel (?h a) < int L"
    using inv unfolding sl_inv_def by blast
  then have "\<forall>a\<in>set lo. \<not> lvl ?h L a"
    by (simp add: lvl_def) force
  then have start: "filter (lvl ?h L) lo = []"
    by (simp add: filter_empty_conv)
  have top: "nat (topLevel (?h 0) + 1) = L" "head s = 0" using inv by (simp_all add: sl_inv_def)
  from find_levels_spec [of L ?h lo hi k L "- 1" "[]" "[]", OF path lo hi tail]
  show ?thesis
    by (simp add: find_def top start FOUND_def PREDS_def SUCCS_def)
qed

lemma FOUND_absent:
  assumes inv: "sl_inv maxKey L s (lo @ hi)" and k: "k < maxKey"
    and hi: "\<forall>a\<in>set hi. key (nodes s a) \<noteq> k"
  shows "FOUND (nodes s) hi k L = - 1"
proof -
  have "\<And>l. key (nodes s (hd (filter (lvl (nodes s) l) hi @ [1]))) \<noteq> k"
  proof -
    fix l
    let ?Z = "filter (lvl (nodes s) l) hi"
    show "key (nodes s (hd (?Z @ [1]))) \<noteq> k"
    proof (cases ?Z)
      case Nil
      then show ?thesis using inv k by (simp add: sl_inv_def)
    next
      case (Cons z zs)
      then have "z \<in> set ?Z" by simp
      then have "z \<in> set hi" by simp
      then show ?thesis using Cons hi by simp
    qed
  qed
  then show ?thesis unfolding FOUND_def by (intro found_level_none) simp
qed

lemma FOUND_present:
  assumes inv: "sl_inv maxKey L s (lo @ v # hi)" and kv: "key (nodes s v) = k"
  shows "FOUND (nodes s) (v # hi) k L = topLevel (nodes s v)"
    and "nat (topLevel (nodes s v)) < L"
    and "l \<le> nat (topLevel (nodes s v)) \<Longrightarrow> SUCCS (nodes s) (v # hi) L ! l = v"
proof -
  let ?h = "nodes s"
  let ?t = "nat (topLevel (?h v))"
  have v: "0 \<le> topLevel (?h v)" "topLevel (?h v) < int L" "k < maxKey"
    using inv kv by (auto simp: sl_inv_def)
  then show tL: "?t < L" by simp
  have above: "\<forall>a\<in>set hi. k < key (?h a)"
    using inv kv by (auto simp: sl_inv_def sorted_wrt_append)
  have hit: "\<And>l. l < L \<Longrightarrow> key (?h (hd (filter (lvl ?h l) (v # hi) @ [1]))) = k \<longleftrightarrow> l \<le> ?t"
  proof -
    fix l
    show "key (?h (hd (filter (lvl ?h l) (v # hi) @ [1]))) = k \<longleftrightarrow> l \<le> ?t"
    proof (cases "lvl ?h l v")
      case True
      then show ?thesis using kv v by (simp add: lvl_def)
    next
      case False
      let ?Z = "filter (lvl ?h l) hi"
      have "key (?h (hd (?Z @ [1]))) \<noteq> k"
      proof (cases ?Z)
        case Nil
        then show ?thesis using inv v by (simp add: sl_inv_def)
      next
        case (Cons z zs)
        then have "z \<in> set ?Z" by simp
        then have "z \<in> set hi" by simp
        then show ?thesis using Cons above by auto
      qed
      then show ?thesis using False v by (simp add: lvl_def)
    qed
  qed
  have "FOUND ?h (v # hi) k L = int ?t"
    unfolding FOUND_def by (rule found_level_top [OF hit tL])
  then show "FOUND ?h (v # hi) k L = topLevel (?h v)" using v by simp
  show "l \<le> ?t \<Longrightarrow> SUCCS ?h (v # hi) L ! l = v"
  proof -
    assume l: "l \<le> ?t"
    then have "lvl ?h l v" using v by (simp add: lvl_def)
    moreover have "l < L" using l tL by simp
    ultimately show ?thesis by (simp add: SUCCS_def)
  qed
qed

lemma abstraction_absent:
  assumes "\<forall>a\<in>set ns. key (h a) \<noteq> k"
  shows "abstraction h ns k = None"
  using assms by (simp add: abstraction_def find_None_iff)

lemma abstraction_present:
  assumes "\<forall>a\<in>set lo. key (h a) \<noteq> k" and "key (h v) = k"
  shows "abstraction h (lo @ v # hi) k = Some (val (h v))"
  using assms by (induction lo) (simp_all add: abstraction_def)

text \<open>
  The keys of \<open>hi\<close> are at least \<open>k\<close> and increase strictly: the key \<open>k\<close> is the key of the first
  node of \<open>hi\<close> or of none.
\<close>

lemma present_or_absent:
  assumes inv: "sl_inv maxKey L s (lo @ hi)"
    and lo: "\<forall>a\<in>set lo. key (nodes s a) < k" and hi: "\<forall>a\<in>set hi. \<not> key (nodes s a) < k"
  shows "(\<forall>a\<in>set (lo @ hi). key (nodes s a) \<noteq> k) \<or>
         (\<exists>v hi'. hi = v # hi' \<and> key (nodes s v) = k \<and> (\<forall>a\<in>set lo. key (nodes s a) \<noteq> k))"
proof (cases hi)
  case Nil
  then show ?thesis using lo by auto
next
  case (Cons v hi')
  show ?thesis
  proof (cases "key (nodes s v) = k")
    case True
    then show ?thesis using Cons lo by auto
  next
    case False
    then have "k < key (nodes s v)" using hi Cons by auto
    moreover have "\<forall>a\<in>set hi'. key (nodes s v) < key (nodes s a)"
      using inv Cons by (auto simp: sl_inv_def sorted_wrt_append)
    ultimately have "\<forall>a\<in>set hi. key (nodes s a) \<noteq> k" using Cons by auto
    then show ?thesis using lo by auto
  qed
qed

text \<open>\<^verbatim>\<open>Find\<close> reads the map.\<close>

lemma Find_spec:
  assumes inv: "sl_inv maxKey L s ns" and k: "k < maxKey"
  shows "Find zero s k =
           Some (Returns (case abstraction (nodes s) ns k of
                            Some v \<Rightarrow> (v, True) | None \<Rightarrow> (zero, False)))"
proof -
  have "sorted_wrt (\<lambda>a b. key (nodes s a) < key (nodes s b)) ns" using inv by (simp add: sl_inv_def)
  from sorted_split [OF this, of k] obtain lo hi where
    ns: "ns = lo @ hi" and lo: "\<forall>a\<in>set lo. key (nodes s a) < k"
    and hi: "\<forall>a\<in>set hi. \<not> key (nodes s a) < k" by blast
  have inv': "sl_inv maxKey L s (lo @ hi)" using inv ns by simp
  note f = find_spec [OF inv' lo hi k]
  from present_or_absent [OF inv' lo hi] show ?thesis
  proof
    assume a: "\<forall>a\<in>set (lo @ hi). key (nodes s a) \<noteq> k"
    then have "FOUND (nodes s) hi k L = - 1" using FOUND_absent [OF inv' k] by simp
    then show ?thesis using f abstraction_absent [of "lo @ hi" "nodes s" k] a ns
      by (simp add: Find_def)
  next
    assume "\<exists>v hi'. hi = v # hi' \<and> key (nodes s v) = k \<and> (\<forall>a\<in>set lo. key (nodes s a) \<noteq> k)"
    then obtain v hi' where h: "hi = v # hi'" and kv: "key (nodes s v) = k"
      and nlo: "\<forall>a\<in>set lo. key (nodes s a) \<noteq> k" by blast
    have inv'': "sl_inv maxKey L s (lo @ v # hi')" using inv' h by simp
    note p = FOUND_present [OF inv'' kv]
    have t0: "0 \<le> topLevel (nodes s v)" and ok: "fullyLinked (nodes s v)" "\<not> marked (nodes s v)"
      using inv'' by (auto simp: sl_inv_def)
    have len: "length (SUCCS (nodes s) hi L) = L" by (simp add: SUCCS_def)
    have "abstraction (nodes s) ns k = Some (val (nodes s v))"
      using abstraction_present [OF nlo kv] ns h by simp
    then show ?thesis using f p(1) p(2) p(3) [of "nat (topLevel (nodes s v))"] t0 ok len h
      by (simp add: Find_def)
  qed
qed


text \<open>
  What the invariant says about the predecessors and successors that \<^verbatim>\<open>find\<close> returns: at
  each level the predecessor is the head or a node below the key, the successor is a node not
  below the key or the tail, and the predecessor's pointer leads to the successor.
\<close>

lemma pred_succ:
  assumes inv: "sl_inv maxKey L s (lo @ hi)" and l: "l < L"
  shows "PREDS (nodes s) lo L ! l = 0 \<or> PREDS (nodes s) lo L ! l \<in> set lo"
    and "SUCCS (nodes s) hi L ! l = 1 \<or> SUCCS (nodes s) hi L ! l \<in> set hi"
    and "step (nodes s) l (PREDS (nodes s) lo L ! l) (SUCCS (nodes s) hi L ! l)"
    and "lvl (nodes s) l (PREDS (nodes s) lo L ! l) \<or> PREDS (nodes s) lo L ! l = 0"
proof -
  let ?h = "nodes s"
  let ?Y = "filter (lvl ?h l) lo"
  let ?Z = "filter (lvl ?h l) hi"
  have P: "PREDS ?h lo L ! l = last (0 # ?Y)" and S: "SUCCS ?h hi L ! l = hd (?Z @ [1])"
    using l by (simp_all add: PREDS_def SUCCS_def)
  show "PREDS ?h lo L ! l = 0 \<or> PREDS ?h lo L ! l \<in> set lo"
  proof (cases "?Y = []")
    case True
    then show ?thesis using P by simp
  next
    case False
    then have "last ?Y \<in> set ?Y" by (rule last_in_set)
    then have "last ?Y \<in> set lo" by simp
    then show ?thesis using P False by simp
  qed
  show "lvl ?h l (PREDS ?h lo L ! l) \<or> PREDS ?h lo L ! l = 0"
  proof (cases "?Y = []")
    case True
    then show ?thesis using P by simp
  next
    case False
    then have "last ?Y \<in> set ?Y" by (rule last_in_set)
    then have "lvl ?h l (last ?Y)" by simp
    then show ?thesis using P False by simp
  qed
  show "SUCCS ?h hi L ! l = 1 \<or> SUCCS ?h hi L ! l \<in> set hi"
  proof (cases ?Z)
    case Nil
    then show ?thesis using S by simp
  next
    case (Cons z zs)
    then have "z \<in> set ?Z" by simp
    then have "z \<in> set hi" by simp
    then show ?thesis using S Cons by simp
  qed
  have "successively (step ?h l) ((0 # ?Y) @ (?Z @ [1]))"
    using inv l by (simp add: sl_inv_def)
  then have "step ?h l (last (0 # ?Y)) (hd (?Z @ [1]))"
    unfolding successively_append_iff by simp
  then show "step ?h l (PREDS ?h lo L ! l) (SUCCS ?h hi L ! l)" using P S by simp
qed

lemma pick_level_bounds:
  "0 \<le> t \<Longrightarrow> t \<le> headTop \<Longrightarrow>
   0 \<le> pick_level coins headTop t \<and> pick_level coins headTop t \<le> headTop"
  by (induction coins headTop t rule: pick_level.induct) auto

lemma upsert_validate_true:
  assumes "\<And>l. level \<le> l \<Longrightarrow> int l \<le> topLvl \<Longrightarrow>
             l < length preds \<and> l < length succs \<and> step h l (preds ! l) (succs ! l) \<and>
             \<not> marked (h (preds ! l)) \<and> \<not> marked (h (succs ! l))"
  shows "upsert_validate h preds succs topLvl level = Returns True"
  using assms
proof (induction h preds succs topLvl level rule: upsert_validate.induct)
  case (1 h preds succs topLvl level)
  show ?case
  proof (cases "int level \<le> topLvl")
    case False
    then show ?thesis by (subst upsert_validate.simps) simp
  next
    case True
    note f = "1.prems" [of level, OF le_refl True]
    have "upsert_validate h preds succs topLvl (level + 1) = Returns True"
      using True f "1.prems" by (intro "1.IH") (auto simp: step_def)
    then show ?thesis using True f by (subst upsert_validate.simps) (simp add: step_def)
  qed
qed

text \<open>
  The heap after the linking loop of \<^verbatim>\<open>Upsert\<close>: only pointers change, and the pointer of
  level \<open>l\<close> of node \<open>a\<close> changes exactly when \<open>a\<close> is the predecessor at a level \<open>l\<close> of the
  new node.
\<close>

lemma upsert_link_spec:
  assumes "\<And>l. level \<le> l \<Longrightarrow> int l \<le> topLvl \<Longrightarrow> l < length preds \<and> l < length (nxt (h (preds ! l)))"
  shows "\<exists>h'. upsert_link h preds n topLvl level = Returns h' \<and>
           (\<forall>a. h' a = (h a)\<lparr>nxt := nxt (h' a)\<rparr> \<and> length (nxt (h' a)) = length (nxt (h a)) \<and>
                (\<forall>l<length (nxt (h a)).
                   nxt (h' a) ! l =
                     (if level \<le> l \<and> int l \<le> topLvl \<and> preds ! l = a then Some n else nxt (h a) ! l)))"
  using assms
proof (induction h preds n topLvl level rule: upsert_link.induct)
  case (1 h preds n topLvl level)
  show ?case
  proof (cases "int level \<le> topLvl")
    case False
    then have "upsert_link h preds n topLvl level = Returns h" by (subst upsert_link.simps) simp
    moreover have "\<And>l. level \<le> l \<Longrightarrow> \<not> int l \<le> topLvl" using False by linarith
    ultimately show ?thesis by auto
  next
    case True
    let ?p = "preds ! level"
    let ?h1 = "h(?p := (h ?p)\<lparr>nxt := (nxt (h ?p))[level := Some n]\<rparr>)"
    note f = "1.prems" [of level, OF le_refl True]
    have len1: "\<And>a. length (nxt (?h1 a)) = length (nxt (h a))" by simp
    have "\<exists>h'. upsert_link ?h1 preds n topLvl (level + 1) = Returns h' \<and>
           (\<forall>a. h' a = (?h1 a)\<lparr>nxt := nxt (h' a)\<rparr> \<and> length (nxt (h' a)) = length (nxt (?h1 a)) \<and>
                (\<forall>l<length (nxt (?h1 a)).
                   nxt (h' a) ! l =
                     (if level + 1 \<le> l \<and> int l \<le> topLvl \<and> preds ! l = a then Some n
                      else nxt (?h1 a) ! l)))"
    proof (rule "1.IH")
      show "int level \<le> topLvl" by (rule True)
      show "level < length preds \<and> level < length (nxt (h ?p))" by (rule f)
      fix l
      assume "level + 1 \<le> l" "int l \<le> topLvl"
      then have "l < length preds \<and> l < length (nxt (h (preds ! l)))"
        using "1.prems" [of l] by simp
      then show "l < length preds \<and> l < length (nxt (?h1 (preds ! l)))"
        using len1 by simp
    qed
    then obtain h' where run: "upsert_link ?h1 preds n topLvl (level + 1) = Returns h'"
      and ch: "\<And>a. h' a = (?h1 a)\<lparr>nxt := nxt (h' a)\<rparr>"
      and ln: "\<And>a. length (nxt (h' a)) = length (nxt (?h1 a))"
      and nx: "\<And>a l. l < length (nxt (?h1 a)) \<Longrightarrow>
                 nxt (h' a) ! l =
                   (if level + 1 \<le> l \<and> int l \<le> topLvl \<and> preds ! l = a then Some n
                    else nxt (?h1 a) ! l)"
      by blast
    have r: "upsert_link h preds n topLvl level = Returns h'"
      using True f run by (subst upsert_link.simps) simp
    have "\<And>a. h' a = (h a)\<lparr>nxt := nxt (h' a)\<rparr>"
    proof -
      fix a
      show "h' a = (h a)\<lparr>nxt := nxt (h' a)\<rparr>" using ch [of a] by (cases "a = ?p") auto
    qed
    moreover have "\<And>a. length (nxt (h' a)) = length (nxt (h a))" using ln len1 by simp
    moreover have "\<And>a l. l < length (nxt (h a)) \<Longrightarrow>
                 nxt (h' a) ! l =
                   (if level \<le> l \<and> int l \<le> topLvl \<and> preds ! l = a then Some n else nxt (h a) ! l)"
    proof -
      fix a l
      assume l: "l < length (nxt (h a))"
      then have "l < length (nxt (?h1 a))" using len1 by simp
      note nx [OF this]
      moreover have "nxt (?h1 a) ! l = (if a = ?p \<and> l = level then Some n else nxt (h a) ! l)"
        using l by (auto simp: nth_list_update)
      ultimately show "nxt (h' a) ! l =
                   (if level \<le> l \<and> int l \<le> topLvl \<and> preds ! l = a then Some n else nxt (h a) ! l)"
        using True by (cases "l = level") auto
    qed
    ultimately show ?thesis using r by blast
  qed
qed


text \<open>
  Insertion keeps the invariant: the new node, at the fresh address \<open>n\<close>, goes between the
  nodes below its key and the others.
\<close>

lemma sl_inv_insert:
  fixes s :: "('k :: linorder, 'v) SkipList"
  assumes inv: "sl_inv maxKey L s (lo @ hi)"
    and lo: "\<forall>a\<in>set lo. key (nodes s a) < k" and hi: "\<forall>a\<in>set hi. k < key (nodes s a)"
    and k: "k < maxKey"
    and t: "0 \<le> topLvl" "topLvl < int L"
    and n: "n = allocated s"
    and new: "hf n = \<lparr>key = k, val = nv,
                      nxt = map Some (take (nat (topLvl + 1)) (SUCCS (nodes s) hi L)),
                      marked = False, fullyLinked = True, topLevel = topLvl\<rparr>"
    and old: "\<And>a. a \<noteq> n \<Longrightarrow>
                hf a = (nodes s a)\<lparr>nxt := nxt (hf a)\<rparr> \<and>
                length (nxt (hf a)) = length (nxt (nodes s a)) \<and>
                (\<forall>l<length (nxt (nodes s a)).
                   nxt (hf a) ! l =
                     (if int l \<le> topLvl \<and> PREDS (nodes s) lo L ! l = a then Some n
                      else nxt (nodes s a) ! l))"
  shows "sl_inv maxKey L (s\<lparr>nodes := hf, allocated := allocated s + 1, totalOperations := c\<rparr>)
           (lo @ n # hi)"
proof -
  let ?h = "nodes s"
  have nodes: "\<forall>a\<in>set (lo @ hi). 2 \<le> a \<and> a < allocated s \<and> \<not> marked (?h a) \<and> fullyLinked (?h a) \<and>
        0 \<le> topLevel (?h a) \<and> topLevel (?h a) < int L \<and>
        length (nxt (?h a)) = nat (topLevel (?h a) + 1) \<and> key (?h a) < maxKey"
    using inv unfolding sl_inv_def by blast
  have basics: "head s = 0" "0 < L" "2 \<le> allocated s" "topLevel (?h 0) = int L - 1"
    "length (nxt (?h 0)) = L" "\<not> marked (?h 0)" "key (?h 1) = maxKey" "\<not> marked (?h 1)"
    "distinct (lo @ hi)" "sorted_wrt (\<lambda>a b. key (?h a) < key (?h b)) (lo @ hi)"
    using inv unfolding sl_inv_def by simp_all
  have path: "\<And>l. l < L \<Longrightarrow> successively (step ?h l) (0 # filter (lvl ?h l) (lo @ hi) @ [1])"
    using inv unfolding sl_inv_def by simp
  have n2: "2 \<le> n" using n basics by simp
  have nfresh: "n \<notin> set (lo @ hi)" using nodes n by auto
  have ge2: "\<And>a. a \<in> set (lo @ hi) \<Longrightarrow> 2 \<le> a" using nodes by blast
  have not01: "0 \<notin> set lo" "0 \<notin> set hi" "Suc 0 \<notin> set lo" "Suc 0 \<notin> set hi"
    using ge2 by force+
  have lohi: "set lo \<inter> set hi = {}" using basics(9) by simp
  have field: "\<And>a. a \<noteq> n \<Longrightarrow> key (hf a) = key (?h a) \<and> marked (hf a) = marked (?h a) \<and>
                 fullyLinked (hf a) = fullyLinked (?h a) \<and> topLevel (hf a) = topLevel (?h a) \<and>
                 length (nxt (hf a)) = length (nxt (?h a))"
  proof -
    fix a
    assume "a \<noteq> n"
    from old [OF this] have e: "hf a = (?h a)\<lparr>nxt := nxt (hf a)\<rparr>"
      and l: "length (nxt (hf a)) = length (nxt (?h a))" by simp_all
    have "key (hf a) = key ((?h a)\<lparr>nxt := nxt (hf a)\<rparr>)" using e by simp
    moreover have "marked (hf a) = marked ((?h a)\<lparr>nxt := nxt (hf a)\<rparr>)" using e by simp
    moreover have "fullyLinked (hf a) = fullyLinked ((?h a)\<lparr>nxt := nxt (hf a)\<rparr>)" using e by simp
    moreover have "topLevel (hf a) = topLevel ((?h a)\<lparr>nxt := nxt (hf a)\<rparr>)" using e by simp
    ultimately show "key (hf a) = key (?h a) \<and> marked (hf a) = marked (?h a) \<and>
                 fullyLinked (hf a) = fullyLinked (?h a) \<and> topLevel (hf a) = topLevel (?h a) \<and>
                 length (nxt (hf a)) = length (nxt (?h a))"
      using l by simp
  qed
  have lvl_old: "\<And>a l. a \<noteq> n \<Longrightarrow> lvl hf l a = lvl ?h l a" using field by (simp add: lvl_def)
  have lvl_in: "\<And>a l. a \<in> set (lo @ hi) \<Longrightarrow> lvl hf l a = lvl ?h l a"
    using lvl_old nfresh by metis
  have lvl_new: "\<And>l. lvl hf l n \<longleftrightarrow> int l \<le> topLvl" using new by (simp add: lvl_def)
  have step_same: "\<And>a b l. a \<noteq> n \<Longrightarrow> step ?h l a b \<Longrightarrow>
                     \<not> (int l \<le> topLvl \<and> PREDS ?h lo L ! l = a) \<Longrightarrow> step hf l a b"
    using old by (auto simp: step_def)
  have step_pred: "\<And>b l. l < L \<Longrightarrow> int l \<le> topLvl \<Longrightarrow> step hf l (PREDS ?h lo L ! l) n"
  proof -
    fix l
    assume l: "l < L" "int l \<le> topLvl"
    note ps = pred_succ [OF inv l(1)]
    have pn: "PREDS ?h lo L ! l \<noteq> n" using ps(1) n2 nfresh by auto
    have "l < length (nxt (?h (PREDS ?h lo L ! l)))" using ps(3) by (simp add: step_def)
    then show "step hf l (PREDS ?h lo L ! l) n" using old [OF pn] l by (simp add: step_def)
  qed
  have paths: "\<And>l. l < L \<Longrightarrow> successively (step hf l) (0 # filter (lvl hf l) (lo @ n # hi) @ [1])"
  proof -
    fix l
    assume l: "l < L"
    let ?Y = "filter (lvl ?h l) lo"
    let ?Z = "filter (lvl ?h l) hi"
    let ?P = "PREDS ?h lo L ! l"
    let ?S = "SUCCS ?h hi L ! l"
    note ps = pred_succ [OF inv l]
    have P: "?P = last (0 # ?Y)" and S: "?S = hd (?Z @ [1])"
      using l by (simp_all add: PREDS_def SUCCS_def)
    have Ylo: "set ?Y \<subseteq> set lo" and Zhi: "set ?Z \<subseteq> set hi" by auto
    have fY: "filter (lvl hf l) lo = ?Y" by (intro filter_cong) (simp_all add: lvl_in)
    have fZ: "filter (lvl hf l) hi = ?Z" by (intro filter_cong) (simp_all add: lvl_in)
    have whole: "successively (step ?h l) ((0 # ?Y) @ (?Z @ [1]))" using path [OF l] by simp
    then have A: "successively (step ?h l) (0 # ?Y)" and B: "successively (step ?h l) (?Z @ [1])"
      unfolding successively_append_iff by simp_all
    have disj: "\<And>y. y \<in> set (0 # ?Y) \<Longrightarrow> y \<noteq> ?S"
    proof
      fix y
      assume y: "y \<in> set (0 # ?Y)" and e: "y = ?S"
      from y have "y = 0 \<or> y \<in> set lo" by auto
      moreover have "?S = 1 \<or> ?S \<in> set hi" by (rule ps(2))
      ultimately show False using e lohi not01 by auto
    qed
    have Pnot: "\<And>x. x \<in> set (?Z @ [1]) \<Longrightarrow> x \<noteq> ?P"
    proof
      fix x
      assume x: "x \<in> set (?Z @ [1])" and e: "x = ?P"
      from x have "x = 1 \<or> x \<in> set hi" by auto
      moreover have "?P = 0 \<or> ?P \<in> set lo" by (rule ps(1))
      ultimately show False using e lohi not01 by auto
    qed
    have notn: "\<And>x. x \<in> set (0 # ?Y) \<union> set (?Z @ [1]) \<Longrightarrow> x \<noteq> n"
      using nfresh n2 by auto
    show "successively (step hf l) (0 # filter (lvl hf l) (lo @ n # hi) @ [1])"
    proof (cases "int l \<le> topLvl")
      case True
      have A': "successively (step hf l) (0 # ?Y)"
      proof (rule successively_mono [OF A])
        fix x y
        assume x: "x \<in> set (0 # ?Y)" and y: "y \<in> set (0 # ?Y)" and st: "step ?h l x y"
        have "x \<noteq> ?P"
        proof
          assume "x = ?P"
          then have "y = ?S" using st ps(3) by (simp add: step_def)
          then show False using disj [OF y] by simp
        qed
        then show "step hf l x y" using step_same [OF _ st] notn x by auto
      qed
      have B': "successively (step hf l) (?Z @ [1])"
      proof (rule successively_mono [OF B])
        fix x y
        assume x: "x \<in> set (?Z @ [1])" and st: "step ?h l x y"
        have "x \<noteq> ?P" by (rule Pnot [OF x])
        then show "step hf l x y" using step_same [OF _ st] notn x by auto
      qed
      have len: "length (SUCCS ?h hi L) = L" by (simp add: SUCCS_def)
      have "l < nat (topLvl + 1)" using True by simp
      then have "nxt (hf n) ! l = Some ?S \<and> l < length (nxt (hf n))"
        using new len l t by simp
      then have nS: "step hf l n (hd (?Z @ [1]))" using S by (simp add: step_def)
      have Pn: "step hf l (last (0 # ?Y)) n" using step_pred [OF l True] P by simp
      have "successively (step hf l) ((0 # ?Y) @ (n # ?Z @ [1]))"
        unfolding successively_append_iff using A' B' nS Pn
        by (simp add: successively_Cons)
      then show ?thesis using fY fZ lvl_new True by simp
    next
      case False
      have "successively (step hf l) ((0 # ?Y) @ (?Z @ [1]))"
      proof (rule successively_mono [OF whole])
        fix x y
        assume x: "x \<in> set ((0 # ?Y) @ ?Z @ [1])" and st: "step ?h l x y"
        then have "x \<noteq> n" using notn by auto
        then show "step hf l x y" using step_same [OF _ st] False by simp
      qed
      then show ?thesis using fY fZ lvl_new False by simp
    qed
  qed
  have sorted: "sorted_wrt (\<lambda>a b. key (hf a) < key (hf b)) (lo @ n # hi)"
  proof -
    have s1: "sorted_wrt (\<lambda>a b. key (?h a) < key (?h b)) lo"
      and s2: "sorted_wrt (\<lambda>a b. key (?h a) < key (?h b)) hi"
      and s3: "\<forall>a\<in>set lo. \<forall>b\<in>set hi. key (?h a) < key (?h b)"
      using basics(10) by (simp_all add: sorted_wrt_append)
    have ko: "\<And>a. a \<in> set lo \<or> a \<in> set hi \<Longrightarrow> key (hf a) = key (?h a)"
      using field nfresh by (metis Un_iff set_append)
    have kn: "key (hf n) = k" using new by simp
    have t1: "sorted_wrt (\<lambda>a b. key (hf a) < key (hf b)) lo"
      by (rule sorted_wrt_mono_rel [OF _ s1]) (simp add: ko)
    have t2: "sorted_wrt (\<lambda>a b. key (hf a) < key (hf b)) hi"
      by (rule sorted_wrt_mono_rel [OF _ s2]) (simp add: ko)
    have t3: "\<forall>a\<in>set lo. \<forall>b\<in>set hi. key (hf a) < key (hf b)" using s3 by (simp add: ko)
    have t4: "\<forall>a\<in>set lo. key (hf a) < key (hf n)" using lo by (simp add: ko kn)
    have t5: "\<forall>a\<in>set hi. key (hf n) < key (hf a)" using hi by (simp add: ko kn)
    show ?thesis using t1 t2 t3 t4 t5 by (simp add: sorted_wrt_append)
  qed
  have nodes': "\<forall>a\<in>set (lo @ n # hi). 2 \<le> a \<and> a < allocated s + 1 \<and> \<not> marked (hf a) \<and>
        fullyLinked (hf a) \<and> 0 \<le> topLevel (hf a) \<and> topLevel (hf a) < int L \<and>
        length (nxt (hf a)) = nat (topLevel (hf a) + 1) \<and> key (hf a) < maxKey"
  proof
    fix a
    assume a: "a \<in> set (lo @ n # hi)"
    show "2 \<le> a \<and> a < allocated s + 1 \<and> \<not> marked (hf a) \<and>
        fullyLinked (hf a) \<and> 0 \<le> topLevel (hf a) \<and> topLevel (hf a) < int L \<and>
        length (nxt (hf a)) = nat (topLevel (hf a) + 1) \<and> key (hf a) < maxKey"
    proof (cases "a = n")
      case True
      have "length (SUCCS ?h hi L) = L" by (simp add: SUCCS_def)
      then show ?thesis using True new n2 n t k by simp
    next
      case False
      then have "a \<in> set (lo @ hi)" using a by auto
      from bspec [OF nodes this] show ?thesis using field [OF False] by simp
    qed
  qed
  have h0: "0 \<noteq> n" "1 \<noteq> n" using n2 by simp_all
  show ?thesis
    unfolding sl_inv_def
    using basics nfresh nodes' sorted paths field [OF h0(1)] field [OF h0(2)]
    by simp
qed


text \<open>Writing a value into a node keeps the invariant.\<close>

lemma sl_inv_update_val:
  assumes inv: "sl_inv maxKey L s ns"
  shows "sl_inv maxKey L
           (s\<lparr>nodes := (nodes s)(v := (nodes s v)\<lparr>val := nv\<rparr>), totalOperations := c\<rparr>) ns"
proof -
  let ?h = "nodes s"
  let ?h' = "?h(v := (?h v)\<lparr>val := nv\<rparr>)"
  define h' where "h' = ?h'"
  have st: "\<And>l. step h' l = step ?h l" by (intro ext) (simp add: step_def h'_def)
  have lv: "\<And>l. lvl h' l = lvl ?h l" by (intro ext) (simp add: lvl_def h'_def)
  have fields: "\<And>a. key (h' a) = key (?h a)" "\<And>a. marked (h' a) = marked (?h a)"
    "\<And>a. fullyLinked (h' a) = fullyLinked (?h a)" "\<And>a. topLevel (h' a) = topLevel (?h a)"
    "\<And>a. nxt (h' a) = nxt (?h a)"
    by (simp_all add: h'_def)
  have "sl_inv maxKey L (s\<lparr>nodes := h', totalOperations := c\<rparr>) ns"
    using inv unfolding sl_inv_def by (simp add: st lv fields)
  then show ?thesis by (simp add: h'_def)
qed

text \<open>How the map changes with the heap and the list of nodes.\<close>

lemma abstraction_cong:
  assumes "\<And>a. a \<in> set ns \<Longrightarrow> key (h' a) = key (h a)"
    and "\<And>a. a \<in> set ns \<Longrightarrow> key (h a) = k \<Longrightarrow> val (h' a) = val (h a)"
  shows "abstraction h' ns k = abstraction h ns k"
  using assms by (induction ns) (simp_all add: abstraction_def)

lemma abstraction_skip:
  "key (h n) \<noteq> k \<Longrightarrow> abstraction h (lo @ n # hi) k = abstraction h (lo @ hi) k"
  by (induction lo) (simp_all add: abstraction_def)

lemma abstraction_update:
  assumes kv: "key (h v) = k" and lo: "\<forall>a\<in>set lo. key (h a) \<noteq> k"
  shows "abstraction (h(v := (h v)\<lparr>val := nv\<rparr>)) (lo @ v # hi) = (abstraction h (lo @ v # hi))(k \<mapsto> nv)"
proof
  fix k'
  let ?h' = "h(v := (h v)\<lparr>val := nv\<rparr>)"
  show "abstraction ?h' (lo @ v # hi) k' = ((abstraction h (lo @ v # hi))(k \<mapsto> nv)) k'"
  proof (cases "k' = k")
    case True
    have "abstraction ?h' (lo @ v # hi) k = Some (val (?h' v))"
      using kv lo by (intro abstraction_present) auto
    then show ?thesis using True by simp
  next
    case False
    have "abstraction ?h' (lo @ v # hi) k' = abstraction h (lo @ v # hi) k'"
      using False kv by (intro abstraction_cong) auto
    then show ?thesis using False by simp
  qed
qed

lemma abstraction_insert:
  assumes key: "\<And>a. a \<in> set (lo @ hi) \<Longrightarrow> key (hf a) = key (h a)"
    and val: "\<And>a. a \<in> set (lo @ hi) \<Longrightarrow> val (hf a) = val (h a)"
    and n: "key (hf n) = k" "val (hf n) = nv"
    and lo: "\<forall>a\<in>set lo. key (h a) \<noteq> k"
  shows "abstraction hf (lo @ n # hi) = (abstraction h (lo @ hi))(k \<mapsto> nv)"
proof
  fix k'
  show "abstraction hf (lo @ n # hi) k' = ((abstraction h (lo @ hi))(k \<mapsto> nv)) k'"
  proof (cases "k' = k")
    case True
    have "abstraction hf (lo @ n # hi) k = Some (val (hf n))"
      using n lo key by (intro abstraction_present) auto
    then show ?thesis using True n by simp
  next
    case False
    have "abstraction hf (lo @ n # hi) k' = abstraction hf (lo @ hi) k'"
      using False n by (intro abstraction_skip) simp
    also have "\<dots> = abstraction h (lo @ hi) k'"
      using key val by (intro abstraction_cong) auto
    finally show ?thesis using False by simp
  qed
qed

lemma abstraction_remove:
  assumes key: "\<And>a. a \<in> set (lo @ hi) \<Longrightarrow> key (h' a) = key (h a)"
    and val: "\<And>a. a \<in> set (lo @ hi) \<Longrightarrow> val (h' a) = val (h a)"
    and kv: "key (h v) = k"
    and others: "\<forall>a\<in>set (lo @ hi). key (h a) \<noteq> k"
  shows "abstraction h' (lo @ hi) = (abstraction h (lo @ v # hi))(k := None)"
proof
  fix k'
  show "abstraction h' (lo @ hi) k' = ((abstraction h (lo @ v # hi))(k := None)) k'"
  proof (cases "k' = k")
    case True
    have "abstraction h' (lo @ hi) k = None"
      using others key by (intro abstraction_absent) auto
    then show ?thesis using True by simp
  next
    case False
    have "abstraction h (lo @ v # hi) k' = abstraction h (lo @ hi) k'"
      using False kv by (intro abstraction_skip) simp
    moreover have "abstraction h' (lo @ hi) k' = abstraction h (lo @ hi) k'"
      using key val by (intro abstraction_cong) auto
    ultimately show ?thesis using False by simp
  qed
qed

text \<open>
  One pass of \<^verbatim>\<open>Upsert\<close> on a key that is absent, when the callback accepts: the pass
  ends the loop with a new node in place.
\<close>

lemma Upsert_pass_insert:
  fixes s :: "('k :: linorder, 'v) SkipList"
  assumes inv: "sl_inv maxKey L s (lo @ hi)"
    and lo: "\<forall>a\<in>set lo. key (nodes s a) < k" and hi: "\<forall>a\<in>set hi. k < key (nodes s a)"
    and k: "k < maxKey"
    and t: "0 \<le> topLvl" "topLvl < int L"
    and chk: "check k zero False env = (Inr nv, env')"
  shows "\<exists>s'. Upsert_pass zero check topLvl k s env = Done (Returns (False, None), s', env') \<and>
              sl_inv maxKey L s' (lo @ allocated s # hi) \<and>
              abstraction (nodes s') (lo @ allocated s # hi) = (abstraction (nodes s) (lo @ hi))(k \<mapsto> nv)"
proof -
  let ?h = "nodes s"
  let ?n = "allocated s"
  let ?preds = "PREDS ?h lo L"
  let ?succs = "SUCCS ?h hi L"
  let ?node = "\<lparr>key = k, val = nv, nxt = map Some (take (nat (topLvl + 1)) ?succs),
                marked = False, fullyLinked = False, topLevel = topLvl\<rparr>"
  let ?hnew = "?h(?n := ?node)"
  have hi': "\<forall>a\<in>set hi. \<not> key (?h a) < k" using hi by auto
  have nk: "\<forall>a\<in>set hi. key (?h a) \<noteq> k" using hi by auto
  have nodes: "\<forall>a\<in>set (lo @ hi). 2 \<le> a \<and> a < allocated s \<and> \<not> marked (?h a)"
    using inv unfolding sl_inv_def by blast
  have basics: "2 \<le> allocated s" "\<not> marked (?h 0)" "\<not> marked (?h 1)"
    using inv unfolding sl_inv_def by simp_all
  have len: "length ?preds = L" "length ?succs = L" by (simp_all add: PREDS_def SUCCS_def)
  have f: "find s k = Some (Returns (- 1, ?preds, ?succs))"
    using find_spec [OF inv lo hi' k] FOUND_absent [OF inv k nk] by simp
  have lev: "\<And>l. int l \<le> topLvl \<Longrightarrow> l < L" using t by simp
  have pn: "\<And>l. l < L \<Longrightarrow> ?preds ! l \<noteq> ?n \<and> \<not> marked (?h (?preds ! l))"
  proof -
    fix l
    assume "l < L"
    from pred_succ(1) [OF inv this] show "?preds ! l \<noteq> ?n \<and> \<not> marked (?h (?preds ! l))"
    proof
      assume "?preds ! l = 0"
      then show ?thesis using basics by simp
    next
      assume "?preds ! l \<in> set lo"
      then have "?preds ! l \<in> set (lo @ hi)" by simp
      from bspec [OF nodes this] show ?thesis by simp
    qed
  qed
  have sm: "\<And>l. l < L \<Longrightarrow> \<not> marked (?h (?succs ! l))"
  proof -
    fix l
    assume "l < L"
    from pred_succ(2) [OF inv this] show "\<not> marked (?h (?succs ! l))"
    proof
      assume "?succs ! l = 1"
      then show ?thesis using basics by simp
    next
      assume "?succs ! l \<in> set hi"
      then have "?succs ! l \<in> set (lo @ hi)" by simp
      from bspec [OF nodes this] show ?thesis by simp
    qed
  qed
  have valid: "upsert_validate ?h ?preds ?succs topLvl 0 = Returns True"
  proof (rule upsert_validate_true)
    fix l
    assume "int l \<le> topLvl"
    then have l: "l < L" by (rule lev)
    show "l < length ?preds \<and> l < length ?succs \<and> step ?h l (?preds ! l) (?succs ! l) \<and>
          \<not> marked (?h (?preds ! l)) \<and> \<not> marked (?h (?succs ! l))"
      using l len pred_succ(3) [OF inv l] pn [OF l] sm [OF l] by simp
  qed
  have "\<exists>h'. upsert_link ?hnew ?preds ?n topLvl 0 = Returns h' \<and>
           (\<forall>a. h' a = (?hnew a)\<lparr>nxt := nxt (h' a)\<rparr> \<and> length (nxt (h' a)) = length (nxt (?hnew a)) \<and>
                (\<forall>l<length (nxt (?hnew a)).
                   nxt (h' a) ! l =
                     (if 0 \<le> l \<and> int l \<le> topLvl \<and> ?preds ! l = a then Some ?n else nxt (?hnew a) ! l)))"
  proof (rule upsert_link_spec)
    fix l
    assume "int l \<le> topLvl"
    then have l: "l < L" by (rule lev)
    have "l < length (nxt (?h (?preds ! l)))" using pred_succ(3) [OF inv l] by (simp add: step_def)
    then show "l < length ?preds \<and> l < length (nxt (?hnew (?preds ! l)))"
      using l len pn [OF l] by simp
  qed
  then obtain h' where link: "upsert_link ?hnew ?preds ?n topLvl 0 = Returns h'"
    and ch: "\<And>a. h' a = (?hnew a)\<lparr>nxt := nxt (h' a)\<rparr>"
    and ln: "\<And>a. length (nxt (h' a)) = length (nxt (?hnew a))"
    and nx: "\<And>a l. l < length (nxt (?hnew a)) \<Longrightarrow>
               nxt (h' a) ! l =
                 (if int l \<le> topLvl \<and> ?preds ! l = a then Some ?n else nxt (?hnew a) ! l)"
    by auto
  let ?hf = "h'(?n := (h' ?n)\<lparr>fullyLinked := True\<rparr>)"
  let ?s' = "s\<lparr>nodes := ?hf, allocated := allocated s + 1, totalOperations := totalOperations s + 1\<rparr>"
  have pass: "Upsert_pass zero check topLvl k s env = Done (Returns (False, None), ?s', env')"
    unfolding Upsert_pass_def using f chk valid link by (simp add: Let_def)
  have nn: "nxt (h' ?n) = nxt (?hnew ?n)"
  proof (rule nth_equalityI)
    show "length (nxt (h' ?n)) = length (nxt (?hnew ?n))" by (rule ln)
    fix l
    assume "l < length (nxt (h' ?n))"
    then have l: "l < length (nxt (?hnew ?n))" using ln by simp
    then have "l < L" using len t by simp
    then have "?preds ! l \<noteq> ?n" using pn by simp
    then show "nxt (h' ?n) ! l = nxt (?hnew ?n) ! l" using nx [OF l] by simp
  qed
  have new: "?hf ?n = \<lparr>key = k, val = nv, nxt = map Some (take (nat (topLvl + 1)) ?succs),
                      marked = False, fullyLinked = True, topLevel = topLvl\<rparr>"
    using ch [of ?n] nn by simp
  have old: "\<And>a. a \<noteq> ?n \<Longrightarrow>
                ?hf a = (?h a)\<lparr>nxt := nxt (?hf a)\<rparr> \<and>
                length (nxt (?hf a)) = length (nxt (?h a)) \<and>
                (\<forall>l<length (nxt (?h a)).
                   nxt (?hf a) ! l =
                     (if int l \<le> topLvl \<and> ?preds ! l = a then Some ?n else nxt (?h a) ! l))"
  proof -
    fix a
    assume a: "a \<noteq> ?n"
    have "?hf a = (?h a)\<lparr>nxt := nxt (?hf a)\<rparr>" using ch [of a] a by simp
    moreover have "length (nxt (?hf a)) = length (nxt (?h a))" using ln [of a] a by simp
    moreover have "\<forall>l<length (nxt (?h a)).
                   nxt (?hf a) ! l =
                     (if int l \<le> topLvl \<and> ?preds ! l = a then Some ?n else nxt (?h a) ! l)"
      using nx [of _ a] a by simp
    ultimately show "?hf a = (?h a)\<lparr>nxt := nxt (?hf a)\<rparr> \<and>
                length (nxt (?hf a)) = length (nxt (?h a)) \<and>
                (\<forall>l<length (nxt (?h a)).
                   nxt (?hf a) ! l =
                     (if int l \<le> topLvl \<and> ?preds ! l = a then Some ?n else nxt (?h a) ! l))"
      by blast
  qed
  have inv': "sl_inv maxKey L ?s' (lo @ ?n # hi)"
    by (rule sl_inv_insert [OF inv lo hi k t refl new old])
  have fresh: "\<And>a. a \<in> set (lo @ hi) \<Longrightarrow> a \<noteq> ?n"
  proof -
    fix a
    assume "a \<in> set (lo @ hi)"
    from bspec [OF nodes this] show "a \<noteq> ?n" by simp
  qed
  have kv: "\<And>a. a \<in> set (lo @ hi) \<Longrightarrow> key (?hf a) = key (?h a) \<and> val (?hf a) = val (?h a)"
  proof -
    fix a
    assume "a \<in> set (lo @ hi)"
    then have a: "a \<noteq> ?n" by (rule fresh)
    from old [OF a] have e: "?hf a = (?h a)\<lparr>nxt := nxt (?hf a)\<rparr>" by simp
    have "key (?hf a) = key ((?h a)\<lparr>nxt := nxt (?hf a)\<rparr>)" using e by simp
    moreover have "val (?hf a) = val ((?h a)\<lparr>nxt := nxt (?hf a)\<rparr>)" using e by simp
    ultimately show "key (?hf a) = key (?h a) \<and> val (?hf a) = val (?h a)" by simp
  qed
  have k1: "\<And>a. a \<in> set (lo @ hi) \<Longrightarrow> key (?hf a) = key (?h a)" using kv by blast
  have v1: "\<And>a. a \<in> set (lo @ hi) \<Longrightarrow> val (?hf a) = val (?h a)" using kv by blast
  have n1: "key (?hf ?n) = k" "val (?hf ?n) = nv" using new by simp_all
  have l1: "\<forall>a\<in>set lo. key (?h a) \<noteq> k" using lo by auto
  have "abstraction ?hf (lo @ ?n # hi) = (abstraction ?h (lo @ hi))(k \<mapsto> nv)"
    by (rule abstraction_insert [OF k1 v1 n1 l1])
  then show ?thesis using pass inv' by auto
qed


text \<open>\<^verbatim>\<open>Upsert\<close> is the upsert of the map, and keeps the invariant.\<close>

lemma Upsert_spec:
  fixes s :: "('k :: linorder, 'v) SkipList"
  assumes inv: "sl_inv maxKey L s ns" and k: "k < maxKey"
    and ref: "ref_upsert zero k check (abstraction (nodes s) ns) env = (r, m', env')"
  shows "\<exists>s' ns'. Upsert zero coins k check s env = Some (Returns r, s', env') \<and>
                  sl_inv maxKey L s' ns' \<and> abstraction (nodes s') ns' = m'"
proof -
  let ?h = "nodes s"
  let ?t = "pick_level coins (topLevel (?h (head s))) 0"
  have top: "topLevel (?h (head s)) = int L - 1" "0 < L" using inv by (simp_all add: sl_inv_def)
  then have t: "0 \<le> ?t" "?t < int L"
    using pick_level_bounds [of 0 "topLevel (?h (head s))" coins] by simp_all
  have "sorted_wrt (\<lambda>a b. key (?h a) < key (?h b)) ns" using inv by (simp add: sl_inv_def)
  from sorted_split [OF this, of k] obtain lo hi where
    ns: "ns = lo @ hi" and lo: "\<forall>a\<in>set lo. key (?h a) < k"
    and hi: "\<forall>a\<in>set hi. \<not> key (?h a) < k" by blast
  have inv': "sl_inv maxKey L s (lo @ hi)" using inv ns by simp
  have loop: "\<And>res. Upsert_pass zero check ?t k s env = Done res \<Longrightarrow>
                Upsert zero coins k check s env = Some res"
    by (simp add: Upsert_def Upsert_loop.simps)
  from present_or_absent [OF inv' lo hi] show ?thesis
  proof
    assume a: "\<forall>a\<in>set (lo @ hi). key (?h a) \<noteq> k"
    then have m: "abstraction ?h ns k = None" using abstraction_absent [of "lo @ hi" ?h k] ns by simp
    have nk: "\<forall>a\<in>set hi. key (?h a) \<noteq> k" using a by simp
    have f: "find s k = Some (Returns (- 1, PREDS ?h lo L, SUCCS ?h hi L))"
      using find_spec [OF inv' lo hi k] FOUND_absent [OF inv' k nk] by simp
    obtain res env1 where chk: "check k zero False env = (res, env1)" by (cases "check k zero False env")
    show ?thesis
    proof (cases res)
      case (Inl err)
      then have "r = (False, Some err)" "m' = abstraction ?h ns" "env' = env1"
        using ref m chk by (simp_all add: ref_upsert_def)
      moreover have "Upsert_pass zero check ?t k s env = Done (Returns (False, Some err), s, env1)"
        unfolding Upsert_pass_def using f chk Inl by simp
      ultimately show ?thesis using loop inv by blast
    next
      case (Inr nv)
      then have r: "r = (False, None)" "m' = (abstraction ?h ns)(k \<mapsto> nv)" "env' = env1"
        using ref m chk by (simp_all add: ref_upsert_def)
      have hi': "\<forall>a\<in>set hi. k < key (?h a)" using hi nk by (meson linorder_neqE)
      from Upsert_pass_insert [OF inv' lo hi' k t, of check zero env nv env1] chk Inr
      obtain s' where "Upsert_pass zero check ?t k s env = Done (Returns (False, None), s', env1)"
        and "sl_inv maxKey L s' (lo @ allocated s # hi)"
        and "abstraction (nodes s') (lo @ allocated s # hi) = (abstraction ?h (lo @ hi))(k \<mapsto> nv)"
        by auto
      then show ?thesis using loop r ns by blast
    qed
  next
    assume "\<exists>v hi'. hi = v # hi' \<and> key (?h v) = k \<and> (\<forall>a\<in>set lo. key (?h a) \<noteq> k)"
    then obtain v hi' where h: "hi = v # hi'" and kv: "key (?h v) = k"
      and nlo: "\<forall>a\<in>set lo. key (?h a) \<noteq> k" by blast
    have inv'': "sl_inv maxKey L s (lo @ v # hi')" using inv' h by simp
    note p = FOUND_present [OF inv'' kv]
    have v: "0 \<le> topLevel (?h v)" "fullyLinked (?h v)" "\<not> marked (?h v)"
      using inv'' by (auto simp: sl_inv_def)
    have len: "length (SUCCS ?h hi L) = L" by (simp add: SUCCS_def)
    have m: "abstraction ?h ns k = Some (val (?h v))"
      using abstraction_present [OF nlo kv] ns h by simp
    have f: "find s k = Some (Returns (topLevel (?h v), PREDS ?h lo L, SUCCS ?h hi L))"
      using find_spec [OF inv' lo hi k] p(1) h by simp
    have found: "SUCCS ?h hi L ! nat (topLevel (?h v)) = v" using p(3) [of "nat (topLevel (?h v))"] h by simp
    obtain res env1 where chk: "check k (val (?h v)) True env = (res, env1)"
      by (cases "check k (val (?h v)) True env")
    show ?thesis
    proof (cases res)
      case (Inl err)
      then have "r = (False, Some err)" "m' = abstraction ?h ns" "env' = env1"
        using ref m chk by (simp_all add: ref_upsert_def)
      moreover have "Upsert_pass zero check ?t k s env = Done (Returns (False, Some err), s, env1)"
        unfolding Upsert_pass_def using f chk Inl v p(2) len found kv by (simp add: Let_def)
      ultimately show ?thesis using loop inv by blast
    next
      case (Inr nv)
      let ?s' = "s\<lparr>nodes := ?h(v := (?h v)\<lparr>val := nv\<rparr>), totalOperations := totalOperations s + 1\<rparr>"
      have r: "r = (True, None)" "m' = (abstraction ?h ns)(k \<mapsto> nv)" "env' = env1"
        using ref m chk Inr by (simp_all add: ref_upsert_def)
      have "Upsert_pass zero check ?t k s env = Done (Returns (True, None), ?s', env1)"
        unfolding Upsert_pass_def using f chk Inr v p(2) len found kv by (simp add: Let_def)
      moreover have "sl_inv maxKey L ?s' ns" by (rule sl_inv_update_val [OF inv])
      moreover have "abstraction (nodes ?s') ns = (abstraction ?h ns)(k \<mapsto> nv)"
        using abstraction_update [OF kv nlo, of nv hi'] ns h by simp
      ultimately show ?thesis using loop r by blast
    qed
  qed
qed


text \<open>The loops of \<^verbatim>\<open>Remove\<close>.\<close>

lemma remove_validate_true:
  assumes "\<And>l. level \<le> l \<Longrightarrow> int l \<le> topLvl \<Longrightarrow>
             l < length preds \<and> step h l (preds ! l) victim \<and> \<not> marked (h (preds ! l))"
  shows "remove_validate h preds victim topLvl level = Returns True"
  using assms
proof (induction h preds victim topLvl level rule: remove_validate.induct)
  case (1 h preds victim topLvl level)
  show ?case
  proof (cases "int level \<le> topLvl")
    case False
    then show ?thesis by (subst remove_validate.simps) simp
  next
    case True
    note f = "1.prems" [of level, OF le_refl True]
    have "remove_validate h preds victim topLvl (level + 1) = Returns True"
      using True f "1.prems" by (intro "1.IH") (auto simp: step_def)
    then show ?thesis using True f by (subst remove_validate.simps) (simp add: step_def)
  qed
qed

lemma remove_unlink_spec:
  assumes "\<And>l. int l \<le> level \<Longrightarrow>
             l < length preds \<and> l < length (nxt (h (preds ! l))) \<and> l < length (nxt (h victim)) \<and>
             preds ! l \<noteq> victim"
  shows "\<exists>h'. remove_unlink h preds victim level = Returns h' \<and>
           (\<forall>a. h' a = (h a)\<lparr>nxt := nxt (h' a)\<rparr> \<and> length (nxt (h' a)) = length (nxt (h a)) \<and>
                (\<forall>l<length (nxt (h a)).
                   nxt (h' a) ! l =
                     (if int l \<le> level \<and> preds ! l = a then nxt (h victim) ! l else nxt (h a) ! l)))"
  using assms
proof (induction h preds victim level rule: remove_unlink.induct)
  case (1 h preds victim level)
  show ?case
  proof (cases "0 \<le> level")
    case False
    then have "remove_unlink h preds victim level = Returns h" by (subst remove_unlink.simps) simp
    moreover have "\<And>l. \<not> int l \<le> level" using False by linarith
    ultimately show ?thesis by auto
  next
    case True
    let ?l = "nat level"
    let ?p = "preds ! ?l"
    let ?h1 = "h(?p := (h ?p)\<lparr>nxt := (nxt (h ?p))[?l := nxt (h victim) ! ?l]\<rparr>)"
    have il: "int ?l \<le> level" using True by simp
    note f = "1.prems" [of ?l, OF il]
    have len1: "\<And>a. length (nxt (?h1 a)) = length (nxt (h a))" by simp
    have vic: "?h1 victim = h victim" using f by simp
    have "\<exists>h'. remove_unlink ?h1 preds victim (level - 1) = Returns h' \<and>
           (\<forall>a. h' a = (?h1 a)\<lparr>nxt := nxt (h' a)\<rparr> \<and> length (nxt (h' a)) = length (nxt (?h1 a)) \<and>
                (\<forall>l<length (nxt (?h1 a)).
                   nxt (h' a) ! l =
                     (if int l \<le> level - 1 \<and> preds ! l = a then nxt (?h1 victim) ! l
                      else nxt (?h1 a) ! l)))"
    proof (rule "1.IH")
      show "0 \<le> level" by (rule True)
      show "nat level < length preds \<and> nat level < length (nxt (h ?p)) \<and>
            nat level < length (nxt (h victim))" using f by simp
      fix l
      assume "int l \<le> level - 1"
      then have "int l \<le> level" by simp
      from "1.prems" [OF this]
      show "l < length preds \<and> l < length (nxt (?h1 (preds ! l))) \<and> l < length (nxt (?h1 victim)) \<and>
            preds ! l \<noteq> victim"
        using len1 by simp
    qed
    then obtain h' where run: "remove_unlink ?h1 preds victim (level - 1) = Returns h'"
      and ch: "\<And>a. h' a = (?h1 a)\<lparr>nxt := nxt (h' a)\<rparr>"
      and ln: "\<And>a. length (nxt (h' a)) = length (nxt (?h1 a))"
      and nx: "\<And>a l. l < length (nxt (?h1 a)) \<Longrightarrow>
                 nxt (h' a) ! l =
                   (if int l \<le> level - 1 \<and> preds ! l = a then nxt (?h1 victim) ! l
                    else nxt (?h1 a) ! l)"
      by blast
    have r: "remove_unlink h preds victim level = Returns h'"
      using True f run by (subst remove_unlink.simps) simp
    have "\<And>a. h' a = (h a)\<lparr>nxt := nxt (h' a)\<rparr>"
    proof -
      fix a
      show "h' a = (h a)\<lparr>nxt := nxt (h' a)\<rparr>" using ch [of a] by (cases "a = ?p") auto
    qed
    moreover have "\<And>a. length (nxt (h' a)) = length (nxt (h a))" using ln len1 by simp
    moreover have "\<And>a l. l < length (nxt (h a)) \<Longrightarrow>
                 nxt (h' a) ! l =
                   (if int l \<le> level \<and> preds ! l = a then nxt (h victim) ! l else nxt (h a) ! l)"
    proof -
      fix a l
      assume l: "l < length (nxt (h a))"
      then have "l < length (nxt (?h1 a))" using len1 by simp
      note nx [OF this]
      moreover have "nxt (?h1 a) ! l = (if a = ?p \<and> l = ?l then nxt (h victim) ! l else nxt (h a) ! l)"
        using l by (auto simp: nth_list_update)
      moreover have "int l \<le> level \<longleftrightarrow> int l \<le> level - 1 \<or> l = ?l" using True by linarith
      ultimately show "nxt (h' a) ! l =
                   (if int l \<le> level \<and> preds ! l = a then nxt (h victim) ! l else nxt (h a) ! l)"
        using vic by (cases "l = ?l") auto
    qed
    ultimately show ?thesis using r by blast
  qed
qed

text \<open>Unlinking the node \<open>v\<close> keeps the invariant for the other nodes.\<close>

lemma sl_inv_remove:
  fixes s :: "('k :: linorder, 'v) SkipList"
  assumes inv: "sl_inv maxKey L s (lo @ v # hi)"
    and others: "\<And>a. a \<noteq> v \<Longrightarrow>
                hf a = (nodes s a)\<lparr>nxt := nxt (hf a)\<rparr> \<and>
                length (nxt (hf a)) = length (nxt (nodes s a)) \<and>
                (\<forall>l<length (nxt (nodes s a)).
                   nxt (hf a) ! l =
                     (if int l \<le> topLevel (nodes s v) \<and> PREDS (nodes s) lo L ! l = a
                      then nxt (nodes s v) ! l else nxt (nodes s a) ! l))"
  shows "sl_inv maxKey L (s\<lparr>nodes := hf, totalOperations := c\<rparr>) (lo @ hi)"
proof -
  let ?h = "nodes s"
  have nodes: "\<forall>a\<in>set (lo @ v # hi). 2 \<le> a \<and> a < allocated s \<and> \<not> marked (?h a) \<and> fullyLinked (?h a) \<and>
        0 \<le> topLevel (?h a) \<and> topLevel (?h a) < int L \<and>
        length (nxt (?h a)) = nat (topLevel (?h a) + 1) \<and> key (?h a) < maxKey"
    using inv unfolding sl_inv_def by blast
  have basics: "head s = 0" "0 < L" "2 \<le> allocated s" "topLevel (?h 0) = int L - 1"
    "length (nxt (?h 0)) = L" "\<not> marked (?h 0)" "key (?h 1) = maxKey" "\<not> marked (?h 1)"
    "distinct (lo @ v # hi)" "sorted_wrt (\<lambda>a b. key (?h a) < key (?h b)) (lo @ v # hi)"
    using inv unfolding sl_inv_def by simp_all
  have path: "\<And>l. l < L \<Longrightarrow> successively (step ?h l) (0 # filter (lvl ?h l) (lo @ v # hi) @ [1])"
    using inv unfolding sl_inv_def by simp
  have ge2: "\<And>a. a \<in> set (lo @ v # hi) \<Longrightarrow> 2 \<le> a" using nodes by blast
  have v2: "2 \<le> v" using ge2 [of v] by simp
  have not01: "0 \<notin> set lo" "0 \<notin> set hi" "Suc 0 \<notin> set lo" "Suc 0 \<notin> set hi"
    using ge2 by force+
  have vnot: "v \<notin> set lo" "v \<notin> set hi" "set lo \<inter> set hi = {}" using basics(9) by auto
  have field: "\<And>a. a \<noteq> v \<Longrightarrow> key (hf a) = key (?h a) \<and> marked (hf a) = marked (?h a) \<and>
                 fullyLinked (hf a) = fullyLinked (?h a) \<and> topLevel (hf a) = topLevel (?h a) \<and>
                 length (nxt (hf a)) = length (nxt (?h a))"
  proof -
    fix a
    assume "a \<noteq> v"
    from others [OF this] have e: "hf a = (?h a)\<lparr>nxt := nxt (hf a)\<rparr>"
      and l: "length (nxt (hf a)) = length (nxt (?h a))" by simp_all
    have "key (hf a) = key ((?h a)\<lparr>nxt := nxt (hf a)\<rparr>)" using e by simp
    moreover have "marked (hf a) = marked ((?h a)\<lparr>nxt := nxt (hf a)\<rparr>)" using e by simp
    moreover have "fullyLinked (hf a) = fullyLinked ((?h a)\<lparr>nxt := nxt (hf a)\<rparr>)" using e by simp
    moreover have "topLevel (hf a) = topLevel ((?h a)\<lparr>nxt := nxt (hf a)\<rparr>)" using e by simp
    ultimately show "key (hf a) = key (?h a) \<and> marked (hf a) = marked (?h a) \<and>
                 fullyLinked (hf a) = fullyLinked (?h a) \<and> topLevel (hf a) = topLevel (?h a) \<and>
                 length (nxt (hf a)) = length (nxt (?h a))"
      using l by simp
  qed
  have inlist: "\<And>a. a \<in> set (lo @ hi) \<Longrightarrow> a \<noteq> v" using vnot by auto
  have lvl_in: "\<And>a l. a \<in> set (lo @ hi) \<Longrightarrow> lvl hf l a = lvl ?h l a"
    using field inlist by (simp add: lvl_def)
  have step_same: "\<And>a b l. a \<noteq> v \<Longrightarrow> step ?h l a b \<Longrightarrow>
                     \<not> (int l \<le> topLevel (?h v) \<and> PREDS ?h lo L ! l = a) \<Longrightarrow> step hf l a b"
    using others by (auto simp: step_def)
  have paths: "\<And>l. l < L \<Longrightarrow> successively (step hf l) (0 # filter (lvl hf l) (lo @ hi) @ [1])"
  proof -
    fix l
    assume l: "l < L"
    let ?Y = "filter (lvl ?h l) lo"
    let ?Z = "filter (lvl ?h l) hi"
    let ?P = "PREDS ?h lo L ! l"
    have P: "?P = last (0 # ?Y)" using l by (simp add: PREDS_def)
    have Pin: "?P = 0 \<or> ?P \<in> set lo" by (rule pred_succ(1) [OF inv l])
    have Pv: "?P \<noteq> v" using Pin v2 vnot by auto
    have fY: "filter (lvl hf l) lo = ?Y" by (intro filter_cong) (simp_all add: lvl_in)
    have fZ: "filter (lvl hf l) hi = ?Z" by (intro filter_cong) (simp_all add: lvl_in)
    have notv: "\<And>x. x \<in> set (0 # ?Y) \<union> set (?Z @ [1]) \<Longrightarrow> x \<noteq> v"
      using vnot v2 by auto
    have Pnot: "\<And>x. x \<in> set (?Z @ [1]) \<Longrightarrow> x \<noteq> ?P"
    proof
      fix x
      assume x: "x \<in> set (?Z @ [1])" and e: "x = ?P"
      from x have "x = 1 \<or> x \<in> set hi" by auto
      then show False using e Pin vnot not01 by auto
    qed
    show "successively (step hf l) (0 # filter (lvl hf l) (lo @ hi) @ [1])"
    proof (cases "lvl ?h l v")
      case True
      then have tl: "int l \<le> topLevel (?h v)" by (simp add: lvl_def)
      define W where "W = ?Z @ [1]"
      define X where "X = 0 # ?Y"
      have W: "W \<noteq> []" by (simp add: W_def)
      have "successively (step ?h l) (X @ (v # W))"
        using path [OF l] True by (simp add: W_def X_def)
      then have "successively (step ?h l) X \<and> successively (step ?h l) (v # W) \<and>
                 step ?h l (last X) v"
        unfolding successively_append_iff by (simp add: X_def)
      then have "successively (step ?h l) X \<and> step ?h l v (hd W) \<and> successively (step ?h l) W \<and>
                 step ?h l (last X) v"
        using W by (simp add: successively_Cons)
      then have A: "successively (step ?h l) (0 # ?Y)"
        and B: "successively (step ?h l) (?Z @ [1])"
        and Pstep: "step ?h l ?P v" and vstep: "step ?h l v (hd (?Z @ [1]))"
        using P unfolding W_def X_def by simp_all
      have A': "successively (step hf l) (0 # ?Y)"
      proof (rule successively_mono [OF A])
        fix x y
        assume x: "x \<in> set (0 # ?Y)" and y: "y \<in> set (0 # ?Y)" and st: "step ?h l x y"
        have "x \<noteq> ?P"
        proof
          assume "x = ?P"
          then have "y = v" using st Pstep by (simp add: step_def)
          then show False using notv y by auto
        qed
        then show "step hf l x y" using step_same [OF _ st] notv x by auto
      qed
      have B': "successively (step hf l) (?Z @ [1])"
      proof (rule successively_mono [OF B])
        fix x y
        assume x: "x \<in> set (?Z @ [1])" and st: "step ?h l x y"
        have "x \<noteq> ?P" by (rule Pnot [OF x])
        then show "step hf l x y" using step_same [OF _ st] notv x by auto
      qed
      have "l < length (nxt (?h ?P))" using Pstep by (simp add: step_def)
      then have "step hf l ?P (hd (?Z @ [1]))"
        using others [OF Pv] tl vstep by (simp add: step_def)
      then have "step hf l (last X) (hd W)" using P by (simp add: X_def W_def)
      moreover have "successively (step hf l) X" using A' by (simp add: X_def)
      moreover have "successively (step hf l) W" using B' by (simp add: W_def)
      ultimately have "successively (step hf l) (X @ W)"
        unfolding successively_append_iff by simp
      then show ?thesis using fY fZ by (simp add: X_def W_def)
    next
      case False
      then have tl: "\<not> int l \<le> topLevel (?h v)" by (simp add: lvl_def)
      have whole: "successively (step ?h l) ((0 # ?Y) @ (?Z @ [1]))"
        using path [OF l] False by simp
      have "successively (step hf l) ((0 # ?Y) @ (?Z @ [1]))"
      proof (rule successively_mono [OF whole])
        fix x y
        assume x: "x \<in> set ((0 # ?Y) @ ?Z @ [1])" and st: "step ?h l x y"
        then have "x \<noteq> v" using notv by auto
        then show "step hf l x y" using step_same [OF _ st] tl by simp
      qed
      then show ?thesis using fY fZ by simp
    qed
  qed
  have ko: "\<And>a. a \<in> set lo \<or> a \<in> set hi \<Longrightarrow> key (hf a) = key (?h a)"
    using field inlist by (metis Un_iff set_append)
  have sorted: "sorted_wrt (\<lambda>a b. key (hf a) < key (hf b)) (lo @ hi)"
  proof -
    have s1: "sorted_wrt (\<lambda>a b. key (?h a) < key (?h b)) lo"
      and s2: "sorted_wrt (\<lambda>a b. key (?h a) < key (?h b)) hi"
      and s3: "\<forall>a\<in>set lo. \<forall>b\<in>set hi. key (?h a) < key (?h b)"
      using basics(10) by (simp_all add: sorted_wrt_append)
    have t1: "sorted_wrt (\<lambda>a b. key (hf a) < key (hf b)) lo"
      by (rule sorted_wrt_mono_rel [OF _ s1]) (simp add: ko)
    have t2: "sorted_wrt (\<lambda>a b. key (hf a) < key (hf b)) hi"
      by (rule sorted_wrt_mono_rel [OF _ s2]) (simp add: ko)
    have t3: "\<forall>a\<in>set lo. \<forall>b\<in>set hi. key (hf a) < key (hf b)" using s3 by (simp add: ko)
    show ?thesis using t1 t2 t3 by (simp add: sorted_wrt_append)
  qed
  have nodes': "\<forall>a\<in>set (lo @ hi). 2 \<le> a \<and> a < allocated s \<and> \<not> marked (hf a) \<and>
        fullyLinked (hf a) \<and> 0 \<le> topLevel (hf a) \<and> topLevel (hf a) < int L \<and>
        length (nxt (hf a)) = nat (topLevel (hf a) + 1) \<and> key (hf a) < maxKey"
  proof
    fix a
    assume a: "a \<in> set (lo @ hi)"
    then have av: "a \<noteq> v" by (rule inlist)
    have "a \<in> set (lo @ v # hi)" using a by auto
    from bspec [OF nodes this] show "2 \<le> a \<and> a < allocated s \<and> \<not> marked (hf a) \<and>
        fullyLinked (hf a) \<and> 0 \<le> topLevel (hf a) \<and> topLevel (hf a) < int L \<and>
        length (nxt (hf a)) = nat (topLevel (hf a) + 1) \<and> key (hf a) < maxKey"
      using field [OF av] by simp
  qed
  have h0: "0 \<noteq> v" "1 \<noteq> v" using v2 by simp_all
  have "distinct (lo @ hi)" using basics(9) by simp
  then show ?thesis
    unfolding sl_inv_def
    using basics nodes' sorted paths field [OF h0(1)] field [OF h0(2)]
    by simp
qed


text \<open>\<^verbatim>\<open>Remove\<close> is the removal from the map, and keeps the invariant.\<close>

lemma Remove_spec:
  fixes s :: "('k :: linorder, 'v) SkipList"
  assumes inv: "sl_inv maxKey L s ns" and k: "k < maxKey"
  shows "\<exists>s' ns'. Remove zero k s = Some (Returns (ref_find zero (abstraction (nodes s) ns) k), s') \<and>
                  sl_inv maxKey L s' ns' \<and>
                  abstraction (nodes s') ns' = (abstraction (nodes s) ns)(k := None)"
proof -
  let ?h = "nodes s"
  have "sorted_wrt (\<lambda>a b. key (?h a) < key (?h b)) ns" using inv by (simp add: sl_inv_def)
  from sorted_split [OF this, of k] obtain lo hi where
    ns: "ns = lo @ hi" and lo: "\<forall>a\<in>set lo. key (?h a) < k"
    and hi: "\<forall>a\<in>set hi. \<not> key (?h a) < k" by blast
  have inv': "sl_inv maxKey L s (lo @ hi)" using inv ns by simp
  have loop: "\<And>res. Remove_pass zero k s False (- 1) None = Done res \<Longrightarrow> Remove zero k s = Some res"
    by (simp add: Remove_def Remove_loop.simps)
  from present_or_absent [OF inv' lo hi] show ?thesis
  proof
    assume a: "\<forall>a\<in>set (lo @ hi). key (?h a) \<noteq> k"
    then have m: "abstraction ?h ns k = None" using abstraction_absent [of "lo @ hi" ?h k] ns by simp
    have nk: "\<forall>a\<in>set hi. key (?h a) \<noteq> k" using a by simp
    have f: "find s k = Some (Returns (- 1, PREDS ?h lo L, SUCCS ?h hi L))"
      using find_spec [OF inv' lo hi k] FOUND_absent [OF inv' k nk] by simp
    have "Remove_pass zero k s False (- 1) None = Done (Returns (zero, False), s)"
      unfolding Remove_pass_def using f by simp
    then have "Remove zero k s = Some (Returns (ref_find zero (abstraction ?h ns) k), s)"
      using loop m by (simp add: ref_find_def)
    moreover have "(abstraction ?h ns)(k := None) = abstraction ?h ns" using m by auto
    ultimately show ?thesis using inv by metis
  next
    assume "\<exists>v hi'. hi = v # hi' \<and> key (?h v) = k \<and> (\<forall>a\<in>set lo. key (?h a) \<noteq> k)"
    then obtain v hi' where h: "hi = v # hi'" and kv: "key (?h v) = k"
      and nlo: "\<forall>a\<in>set lo. key (?h a) \<noteq> k" by blast
    have inv'': "sl_inv maxKey L s (lo @ v # hi')" using inv' h by simp
    note p = FOUND_present [OF inv'' kv]
    let ?t = "topLevel (?h v)"
    let ?preds = "PREDS ?h lo L"
    let ?succs = "SUCCS ?h hi L"
    let ?h1 = "?h(v := (?h v)\<lparr>marked := True\<rparr>)"
    have nodes: "\<forall>a\<in>set (lo @ v # hi'). 2 \<le> a \<and> \<not> marked (?h a) \<and> fullyLinked (?h a) \<and>
                   0 \<le> topLevel (?h a) \<and> length (nxt (?h a)) = nat (topLevel (?h a) + 1)"
      using inv'' unfolding sl_inv_def by blast
    have basics: "\<not> marked (?h 0)" "distinct (lo @ v # hi')"
      "sorted_wrt (\<lambda>a b. key (?h a) < key (?h b)) (lo @ v # hi')"
      using inv'' unfolding sl_inv_def by simp_all
    have v: "2 \<le> v" "0 \<le> ?t" "fullyLinked (?h v)" "\<not> marked (?h v)"
      "length (nxt (?h v)) = nat (?t + 1)"
      using bspec [OF nodes, of v] by simp_all
    have len: "length ?preds = L" "length ?succs = L" by (simp_all add: PREDS_def SUCCS_def)
    have m: "abstraction ?h ns k = Some (val (?h v))"
      using abstraction_present [OF nlo kv] ns h by simp
    have f: "find s k = Some (Returns (?t, ?preds, ?succs))"
      using find_spec [OF inv' lo hi k] p(1) h by simp
    have found: "?succs ! nat ?t = v" using p(3) [of "nat ?t"] h by simp
    have lev: "\<And>l. int l \<le> ?t \<Longrightarrow> l < L \<and> l \<le> nat ?t" using p(2) by linarith
    have pr: "\<And>l. int l \<le> ?t \<Longrightarrow>
                ?preds ! l \<noteq> v \<and> \<not> marked (?h (?preds ! l)) \<and> step ?h l (?preds ! l) v"
    proof -
      fix l
      assume "int l \<le> ?t"
      then have l: "l < L" "l \<le> nat ?t" using lev by simp_all
      have st: "step ?h l (?preds ! l) v"
        using pred_succ(3) [OF inv' l(1)] p(3) [OF l(2)] h by simp
      from pred_succ(1) [OF inv' l(1)]
      show "?preds ! l \<noteq> v \<and> \<not> marked (?h (?preds ! l)) \<and> step ?h l (?preds ! l) v"
      proof
        assume "?preds ! l = 0"
        then show ?thesis using basics v st by simp
      next
        assume i: "?preds ! l \<in> set lo"
        then have "?preds ! l \<in> set (lo @ v # hi')" by simp
        from bspec [OF nodes this] show ?thesis using i basics(2) st by auto
      qed
    qed
    have st1: "\<And>l a b. step ?h1 l a b = step ?h l a b" by (simp add: step_def)
    have valid: "remove_validate ?h1 ?preds v ?t 0 = Returns True"
    proof (rule remove_validate_true)
      fix l
      assume "int l \<le> ?t"
      then show "l < length ?preds \<and> step ?h1 l (?preds ! l) v \<and> \<not> marked (?h1 (?preds ! l))"
        using pr [of l] lev [of l] len st1 by simp
    qed
    have "\<exists>h'. remove_unlink ?h1 ?preds v ?t = Returns h' \<and>
           (\<forall>a. h' a = (?h1 a)\<lparr>nxt := nxt (h' a)\<rparr> \<and> length (nxt (h' a)) = length (nxt (?h1 a)) \<and>
                (\<forall>l<length (nxt (?h1 a)).
                   nxt (h' a) ! l =
                     (if int l \<le> ?t \<and> ?preds ! l = a then nxt (?h1 v) ! l else nxt (?h1 a) ! l)))"
    proof (rule remove_unlink_spec)
      fix l
      assume a: "int l \<le> ?t"
      have "l < length (nxt (?h (?preds ! l)))" using pr [OF a] by (simp add: step_def)
      moreover have "l < length (nxt (?h v))" using a v by simp
      ultimately show "l < length ?preds \<and> l < length (nxt (?h1 (?preds ! l))) \<and>
            l < length (nxt (?h1 v)) \<and> ?preds ! l \<noteq> v"
        using pr [OF a] lev [OF a] len by simp
    qed
    then obtain h' where unlink: "remove_unlink ?h1 ?preds v ?t = Returns h'"
      and ch: "\<And>a. h' a = (?h1 a)\<lparr>nxt := nxt (h' a)\<rparr>"
      and ln: "\<And>a. length (nxt (h' a)) = length (nxt (?h1 a))"
      and nx: "\<And>a l. l < length (nxt (?h1 a)) \<Longrightarrow>
                 nxt (h' a) ! l =
                   (if int l \<le> ?t \<and> ?preds ! l = a then nxt (?h1 v) ! l else nxt (?h1 a) ! l)"
      by blast
    let ?s' = "s\<lparr>nodes := h', totalOperations := totalOperations s + 1\<rparr>"
    have "val (h' v) = val ((?h1 v)\<lparr>nxt := nxt (h' v)\<rparr>)" using ch [of v] by simp
    then have valv: "val (h' v) = val (?h v)" by simp
    have pass: "Remove_pass zero k s False (- 1) None = Done (Returns (val (?h v), True), ?s')"
      unfolding Remove_pass_def using f v p(2) len found valid unlink valv by (simp add: Let_def)
    have others: "\<And>a. a \<noteq> v \<Longrightarrow>
                h' a = (?h a)\<lparr>nxt := nxt (h' a)\<rparr> \<and>
                length (nxt (h' a)) = length (nxt (?h a)) \<and>
                (\<forall>l<length (nxt (?h a)).
                   nxt (h' a) ! l =
                     (if int l \<le> ?t \<and> ?preds ! l = a then nxt (?h v) ! l else nxt (?h a) ! l))"
    proof -
      fix a
      assume a: "a \<noteq> v"
      have "h' a = (?h a)\<lparr>nxt := nxt (h' a)\<rparr>" using ch [of a] a by simp
      moreover have "length (nxt (h' a)) = length (nxt (?h a))" using ln [of a] a by simp
      moreover have "\<forall>l<length (nxt (?h a)).
                   nxt (h' a) ! l =
                     (if int l \<le> ?t \<and> ?preds ! l = a then nxt (?h v) ! l else nxt (?h a) ! l)"
        using nx [of _ a] a by simp
      ultimately show "h' a = (?h a)\<lparr>nxt := nxt (h' a)\<rparr> \<and>
                length (nxt (h' a)) = length (nxt (?h a)) \<and>
                (\<forall>l<length (nxt (?h a)).
                   nxt (h' a) ! l =
                     (if int l \<le> ?t \<and> ?preds ! l = a then nxt (?h v) ! l else nxt (?h a) ! l))"
        by blast
    qed
    have inv3: "sl_inv maxKey L ?s' (lo @ hi')"
      by (rule sl_inv_remove [OF inv'' others])
    have notv: "\<And>a. a \<in> set (lo @ hi') \<Longrightarrow> a \<noteq> v" using basics(2) by auto
    have kv': "\<And>a. a \<in> set (lo @ hi') \<Longrightarrow> key (h' a) = key (?h a) \<and> val (h' a) = val (?h a)"
    proof -
      fix a
      assume "a \<in> set (lo @ hi')"
      then have a: "a \<noteq> v" by (rule notv)
      from others [OF a] have e: "h' a = (?h a)\<lparr>nxt := nxt (h' a)\<rparr>" by simp
      have "key (h' a) = key ((?h a)\<lparr>nxt := nxt (h' a)\<rparr>)" using e by simp
      moreover have "val (h' a) = val ((?h a)\<lparr>nxt := nxt (h' a)\<rparr>)" using e by simp
      ultimately show "key (h' a) = key (?h a) \<and> val (h' a) = val (?h a)" by simp
    qed
    have k1: "\<And>a. a \<in> set (lo @ hi') \<Longrightarrow> key (h' a) = key (?h a)" using kv' by blast
    have v1: "\<And>a. a \<in> set (lo @ hi') \<Longrightarrow> val (h' a) = val (?h a)" using kv' by blast
    have above: "\<forall>a\<in>set hi'. k < key (?h a)"
      using basics(3) kv by (auto simp: sorted_wrt_append)
    have o1: "\<forall>a\<in>set (lo @ hi'). key (?h a) \<noteq> k" using nlo above by auto
    have "abstraction h' (lo @ hi') = (abstraction ?h (lo @ v # hi'))(k := None)"
      by (rule abstraction_remove [OF k1 v1 kv o1])
    then have "abstraction (nodes ?s') (lo @ hi') = (abstraction ?h ns)(k := None)"
      using ns h by simp
    moreover have "Remove zero k s = Some (Returns (ref_find zero (abstraction ?h ns) k), ?s')"
      using loop [OF pass] m by (simp add: ref_find_def)
    ultimately show ?thesis using inv3 by blast
  qed
qed


text \<open>A new skip list satisfies the invariant and stands for the empty map.\<close>

lemma sl_inv_New:
  assumes "0 < maxLevel"
  shows "sl_inv maxKey maxLevel (New zero minKey maxKey maxLevel) []"
    and "abstraction (nodes (New zero minKey maxKey maxLevel)) [] = Map.empty"
proof -
  show "sl_inv maxKey maxLevel (New zero minKey maxKey maxLevel) []"
    using assms by (simp add: sl_inv_def New_def Let_def step_def)
  show "abstraction (nodes (New zero minKey maxKey maxLevel)) [] = Map.empty"
    by (intro ext) (simp add: abstraction_def)
qed

text \<open>
  From any state that satisfies the invariant, a sequence of operations on keys below the
  upper bound returns what the reference map returns.
\<close>

lemma run_refines:
  fixes s :: "('k :: linorder, 'v) SkipList"
  assumes "sl_inv maxKey L s ns" and "\<forall>op\<in>set ops. key_of op < maxKey"
  shows "run zero ops s env = Some (Returns (ref_run zero ops (abstraction (nodes s) ns) env))"
  using assms
proof (induction ops arbitrary: s ns env)
  case Nil
  then show ?case by simp
next
  case (Cons op ops)
  have k: "key_of op < maxKey" and rest: "\<forall>op\<in>set ops. key_of op < maxKey"
    using Cons.prems(2) by simp_all
  note inv = Cons.prems(1)
  show ?case
  proof (cases op)
    case (DoUpsert k' coins check)
    obtain updated err m' env' where
      ref: "ref_upsert zero k' check (abstraction (nodes s) ns) env = ((updated, err), m', env')"
      by (metis prod.exhaust)
    have "k' < maxKey" using k DoUpsert by simp
    from Upsert_spec [OF inv this ref, of coins] obtain s' ns' where
      up: "Upsert zero coins k' check s env = Some (Returns (updated, err), s', env')"
      and inv': "sl_inv maxKey L s' ns'" and abs: "abstraction (nodes s') ns' = m'" by blast
    have "run zero ops s' env' = Some (Returns (ref_run zero ops (abstraction (nodes s') ns') env'))"
      by (rule Cons.IH [OF inv' rest])
    then have "run zero ops s' env' = Some (Returns (ref_run zero ops m' env'))"
      by (simp only: abs)
    then show ?thesis using DoUpsert up ref by (simp split: prod.split)
  next
    case (DoRemove k')
    have "k' < maxKey" using k DoRemove by simp
    from Remove_spec [OF inv this, of zero] obtain s' ns' where
      rm: "Remove zero k' s = Some (Returns (ref_find zero (abstraction (nodes s) ns) k'), s')"
      and inv': "sl_inv maxKey L s' ns'"
      and abs: "abstraction (nodes s') ns' = (abstraction (nodes s) ns)(k' := None)" by blast
    have "run zero ops s' env = Some (Returns (ref_run zero ops (abstraction (nodes s') ns') env))"
      by (rule Cons.IH [OF inv' rest])
    then have "run zero ops s' env
                 = Some (Returns (ref_run zero ops ((abstraction (nodes s) ns)(k' := None)) env))"
      by (simp only: abs)
    then show ?thesis using DoRemove rm
      by (cases "ref_find zero (abstraction (nodes s) ns) k'") (simp split: prod.split)
  next
    case (DoFind k')
    have "k' < maxKey" using k DoFind by simp
    from Find_spec [OF inv this, of zero]
    have fd: "Find zero s k' = Some (Returns (ref_find zero (abstraction (nodes s) ns) k'))"
      by (simp add: ref_find_def)
    have "run zero ops s env = Some (Returns (ref_run zero ops (abstraction (nodes s) ns) env))"
      by (rule Cons.IH [OF inv rest])
    then show ?thesis using DoFind fd
      by (cases "ref_find zero (abstraction (nodes s) ns) k'") (simp split: prod.split)
  qed
qed

text \<open>
  Claim C4, with the bounds it needs. On a skip list made by \<^verbatim>\<open>New(min, max, maxLevel)\<close>
  with at least one level, every sequence of \<^verbatim>\<open>Upsert\<close>, \<^verbatim>\<open>Remove\<close> and \<^verbatim>\<open>Find\<close>
  on keys strictly below \<open>max\<close>, run one after the other, returns without a panic, whatever the
  coin draws and the callbacks are, and every operation of it returns what the same operation
  returns on the reference map started empty: \<^verbatim>\<open>Find\<close> the value last stored for the key
  by an \<^verbatim>\<open>Upsert\<close> whose callback accepted, if no \<^verbatim>\<open>Remove\<close> of the key came after it,
  and otherwise the zero value and \<open>False\<close>.
\<close>

theorem skiplist_refines_map:
  fixes ops :: "('k :: linorder, 'v, 'e, 'x) operation list"
  assumes "0 < maxLevel" and "\<forall>op\<in>set ops. key_of op < maxKey"
  shows "run zero ops (New zero minKey maxKey maxLevel) env
           = Some (Returns (ref_run zero ops Map.empty env))"
proof -
  have inv: "sl_inv maxKey maxLevel (New zero minKey maxKey maxLevel) []"
    by (rule sl_inv_New(1) [OF assms(1)])
  have "abstraction (nodes (New zero minKey maxKey maxLevel)) [] = Map.empty"
    by (rule sl_inv_New(2) [OF assms(1)])
  with run_refines [OF inv assms(2), where zero = zero and env = env] show ?thesis
    by (simp only:)
qed

text \<open>
  The key \<open>max\<close> itself is found in a new list, with the zero value, because the search stops
  on the tail sentinel; a key above \<open>max\<close> runs the search past the tail; and with no level
  at all an \<^verbatim>\<open>Upsert\<close> reads \<^verbatim>\<open>preds[0]\<close> of an empty slice. The lists of the
  repository's tests are \<^verbatim>\<open>New[int, int](0, 10, 3)\<close>.
\<close>

theorem Find_at_upper_bound_counterexample:
  "run (0 :: int) [DoFind 10 :: (int, int, unit, string) operation] (New 0 0 10 3) ()
     = Some (Returns ([Found 0 True], ())) \<and>
   ref_run (0 :: int) [DoFind 10 :: (int, int, unit, string) operation] Map.empty ()
     = ([Found 0 False], ()) \<and>
   run (0 :: int) [DoFind 11 :: (int, int, unit, string) operation] (New 0 0 10 3) ()
     = Some (Panics NilDereference) \<and>
   run (0 :: int)
     [DoUpsert 5 [] (\<lambda>k v ex e. (Inr 50, e)) :: (int, int, unit, string) operation] (New 0 0 10 0) ()
     = Some (Panics IndexOutOfRange)"
  by code_simp

definition put_if_absent :: "int \<Rightarrow> int \<Rightarrow> bool \<Rightarrow> unit \<Rightarrow> (string + int) \<times> unit" where
  "put_if_absent k v exists e = (if exists then (Inl ''key already exists'', e) else (Inr (10 * k), e))"

definition overwrite :: "int \<Rightarrow> int \<Rightarrow> int \<Rightarrow> bool \<Rightarrow> unit \<Rightarrow> (string + int) \<times> unit" where
  "overwrite new k v exists e = (Inr new, e)"

theorem skiplist_refines_map_witness:
  "run 0 [DoUpsert 3 [True] put_if_absent, DoUpsert 1 [] put_if_absent, DoFind 3,
          DoUpsert 3 [True, True] (overwrite 33), DoFind 3, DoRemove 3, DoFind 3,
          DoUpsert 1 [] put_if_absent, DoFind 1, DoRemove 7] (New 0 0 10 3) ()
     = Some (Returns ([Upserted False None, Upserted False None, Found 30 True,
                       Upserted True None, Found 33 True, Removed 33 True, Found 0 False,
                       Upserted False (Some ''key already exists''), Found 10 True,
                       Removed 0 False], ()))"
proof -
  let ?ops = "[DoUpsert 3 [True] put_if_absent, DoUpsert 1 [] put_if_absent, DoFind 3,
               DoUpsert 3 [True, True] (overwrite 33), DoFind 3, DoRemove 3, DoFind 3,
               DoUpsert 1 [] put_if_absent, DoFind 1, DoRemove 7]"
  have l: "(0 :: nat) < 3" by simp
  have k: "\<forall>op\<in>set ?ops. key_of op < 10" by simp
  have "ref_run 0 ?ops Map.empty ()
          = ([Upserted False None, Upserted False None, Found 30 True,
              Upserted True None, Found 33 True, Removed 33 True, Found 0 False,
              Upserted False (Some ''key already exists''), Found 10 True,
              Removed 0 False], ())"
    by (simp add: ref_upsert_def ref_find_def put_if_absent_def overwrite_def)
  with skiplist_refines_map [OF l k, of 0 0 "()"] show ?thesis by simp
qed


section \<open>PUT on an existing document, in general\<close>

text \<open>
  What \<^verbatim>\<open>docUpsert\<close> does to the reference map when the name is taken by the document at
  address \<open>d\<close> and the request brought the document at another address \<open>n\<close>: the map is
  never changed, and neither is the memory cell of the stored document.
\<close>

lemma ref_upsert_docUpsert:
  assumes stored: "m path = Some (Some d)" and new: "n \<noteq> d"
    and ref: "ref_upsert None path (docUpsert now timeStamp (Some n)) m mem = (r, m', mem')"
  shows "m' = m \<and> documents_at mem' d = documents_at mem d \<and> arrays mem' = arrays mem \<and>
         (r = (True, None) \<or> r = (False, Some (Error ''Bad timestamp''))) \<and>
         (timeStamp = - 1 \<longrightarrow> r = (True, None))"
proof -
  have ta: "type_assert (Some n) HasMetadata" "type_assert (Some n) Overwriteable"
    by (rule type_assert_Document)+
  have same: "m(path \<mapsto> Some d) = m" using stored by auto
  show ?thesis
    using ref stored new ta same
    by (auto simp: ref_upsert_def docUpsert_def Let_def split: if_splits)
qed

text \<open>
  A PUT to a name that is taken, with the document built from the request at a new address:
  whenever \<^verbatim>\<open>PutDoc\<close> returns, the collection maps every name to the same document
  address as before and the stored document is what it was; without a timestamp the answer
  is nevertheless 200.
\<close>

lemma PutDoc_existing_keeps_document:
  assumes inv: "sl_inv STRINGMAX L (documents c) ns"
    and k: "path < STRINGMAX"
    and stored: "abstraction (nodes (documents c)) ns path = Some (Some d)"
    and new: "n \<noteq> d"
    and ret: "PutDoc pf c mem w urlPath timeStampString path (Some n) = Some (Returns (w', c', mem'))"
  shows "\<exists>ns'. sl_inv STRINGMAX L (documents c') ns' \<and>
               abstraction (nodes (documents c')) ns' = abstraction (nodes (documents c)) ns \<and>
               documents_at mem' d = documents_at mem d \<and>
               (timeStampString = [] \<and> statusCode w = None \<longrightarrow> statusCode w' = Some 200)"
proof -
  let ?m = "abstraction (nodes (documents c)) ns"
  let ?ts = "if timeStampString \<noteq> [] then Atoi_value timeStampString else - 1"
  let ?check = "docUpsert (UnixMilli pf) ?ts (Some n)"
  obtain r m1 mem1 where ref: "ref_upsert None path ?check ?m mem = (r, m1, mem1)"
    by (metis prod.exhaust)
  from ref_upsert_docUpsert [OF stored new ref]
  have m1: "m1 = ?m" and d: "documents_at mem1 d = documents_at mem d"
    and r: "r = (True, None) \<or> r = (False, Some (Error ''Bad timestamp''))"
    and r1: "?ts = - 1 \<longrightarrow> r = (True, None)"
    by simp_all
  from Upsert_spec [OF inv k ref, of "Float32_draws pf"] obtain s' ns' where
    up: "Upsert None (Float32_draws pf) path ?check (documents c) mem = Some (Returns r, s', mem1)"
    and inv': "sl_inv STRINGMAX L s' ns'" and abs: "abstraction (nodes s') ns' = m1" by blast
  from r show ?thesis
  proof
    assume rr: "r = (True, None)"
    from ret up rr obtain c1 where
      nu: "notify_update pf ''update'' (Some n) (c\<lparr>documents := s'\<rparr>) mem1 = Some (Returns c1)"
      and res: "c' = c1" "mem' = mem1"
        "w' = Write (PutOutput urlPath)
               (WriteHeader 200 (Header_Set ''Location'' urlPath
                  (if timeStampString \<noteq> [] \<and> Atoi timeStampString = None
                   then ErrorResponse w ''Bad timestamp'' 400 else w)))"
      by (auto simp: PutDoc_def Let_def split: option.splits outcome.splits)
    have "documents c1 = s'"
      using nu by (auto simp: notify_update_def split: option.splits)
    moreover have "timeStampString = [] \<and> statusCode w = None \<longrightarrow> statusCode w' = Some 200"
      using res(3) by (simp add: Write_def WriteHeader_def Header_Set_def)
    ultimately show ?thesis using inv' abs m1 d res by auto
  next
    assume rr: "r = (False, Some (Error ''Bad timestamp''))"
    then have "timeStampString \<noteq> []" using r1 by auto
    moreover from ret up rr have "c' = c\<lparr>documents := s'\<rparr>" "mem' = mem1"
      by (auto simp: PutDoc_def Let_def)
    ultimately show ?thesis using inv' abs m1 d by auto
  qed
qed


section \<open>Path resolver (package paths)\<close>

definition ERROR_BLANK_PATHNAME :: int where "ERROR_BLANK_PATHNAME = - 103"
definition ERROR_INTERNAL :: int where "ERROR_INTERNAL = - 102"
definition ERROR_BAD_SLASH :: int where "ERROR_BAD_SLASH = - 101"
definition ERROR_NO_VERSION :: int where "ERROR_NO_VERSION = - 100"
definition RESOURCE_NULL :: int where "RESOURCE_NULL = 0"
definition RESOURCE_DB :: int where "RESOURCE_DB = 1"
definition RESOURCE_COLL :: int where "RESOURCE_COLL = 2"
definition RESOURCE_DOC :: int where "RESOURCE_DOC = 3"
definition RESOURCE_DB_PUT_DEL :: int where "RESOURCE_DB_PUT_DEL = 4"
definition ERROR_NO_DB :: int where "ERROR_NO_DB = - RESOURCE_DB"
definition ERROR_NO_COLL :: int where "ERROR_NO_COLL = - RESOURCE_COLL"
definition ERROR_NO_DOC :: int where "ERROR_NO_DOC = - RESOURCE_DOC"

lemmas resource_codes =
  ERROR_BLANK_PATHNAME_def ERROR_INTERNAL_def ERROR_BAD_SLASH_def ERROR_NO_VERSION_def
  RESOURCE_NULL_def RESOURCE_DB_def RESOURCE_COLL_def RESOURCE_DOC_def RESOURCE_DB_PUT_DEL_def
  ERROR_NO_DB_def ERROR_NO_COLL_def ERROR_NO_DOC_def

text \<open>
  \<^verbatim>\<open>ParsePath\<close> sees the tree of resources through interface methods only
  (\<^verbatim>\<open>ICollectionHolder.GetColl\<close>, \<^verbatim>\<open>ICollection.FindDoc\<close>); they are parameters. A call
  of such a method returns a resource, which may be \<^verbatim>\<open>nil\<close> (\<open>None\<close>), and the flag
  \<^verbatim>\<open>found\<close>; like every call it may panic, or not return. \<open>GetColl\<close> is
  \<^verbatim>\<open>root.GetColl\<close>, \<open>FindDoc c\<close> is \<^verbatim>\<open>c.FindDoc\<close> for a collection \<open>c\<close> that is not
  \<^verbatim>\<open>nil\<close>, and \<open>holder d\<close> is the type assertion of a document that is not \<^verbatim>\<open>nil\<close> to
  \<^verbatim>\<open>ICollectionHolder\<close> with, when it succeeds, the document's \<^verbatim>\<open>GetColl\<close>; on a
  \<^verbatim>\<open>nil\<close> document the assertion fails, and a method call on a \<^verbatim>\<open>nil\<close> collection
  panics. The loop over \<^verbatim>\<open>range resources\<close> carries \<^verbatim>\<open>lastColl\<close>, \<^verbatim>\<open>lastDoc\<close> and
  \<^verbatim>\<open>found\<close>; both results of a lookup are assigned before \<^verbatim>\<open>found\<close> is tested.
\<close>

type_synonym 'r lookup = "string \<Rightarrow> ('r option \<times> bool) outcome option"

fun range_resources ::
  "'c lookup \<Rightarrow> ('c \<Rightarrow> 'd lookup) \<Rightarrow> ('d \<Rightarrow> 'c lookup option)
     \<Rightarrow> int \<Rightarrow> nat \<Rightarrow> nat \<Rightarrow> string list \<Rightarrow> 'c option \<Rightarrow> 'd option \<Rightarrow> bool
     \<Rightarrow> ('c option \<times> 'd option \<times> int) outcome option"
where
  "range_resources GetColl FindDoc holder finalRes len i [] lastColl lastDoc found =
     (if finalRes = RESOURCE_DB_PUT_DEL then
        (if lastColl = None then Some (Returns (None, None, ERROR_INTERNAL))
         else Some (Returns (lastColl, None, finalRes)))
      else if finalRes = RESOURCE_DOC then
        (if lastDoc = None then Some (Returns (None, None, ERROR_INTERNAL))
         else Some (Returns (None, lastDoc, finalRes)))
      else Some (Returns (None, None, ERROR_INTERNAL)))"
| "range_resources GetColl FindDoc holder finalRes len i (resource # rest) lastColl lastDoc found =
     (if resource = [] then
        (if i \<noteq> len - 1 then Some (Returns (None, None, ERROR_BLANK_PATHNAME))
         else if i = 0 then Some (Returns (None, None, ERROR_BAD_SLASH))
         else if lastColl = None then Some (Returns (None, None, ERROR_INTERNAL))
         else Some (Returns (lastColl, None, finalRes)))
      else if i = 0 then
        (case GetColl resource of
           None \<Rightarrow> None
         | Some (Panics e) \<Rightarrow> Some (Panics e)
         | Some (Returns (c, found')) \<Rightarrow>
             if \<not> found' then Some (Returns (None, None, - finalRes))
             else range_resources GetColl FindDoc holder finalRes len (i + 1) rest c lastDoc found')
      else if i mod 2 = 1 then
        (case lastColl of
           None \<Rightarrow> Some (Panics NilDereference)
         | Some c \<Rightarrow>
             (case FindDoc c resource of
                None \<Rightarrow> None
              | Some (Panics e) \<Rightarrow> Some (Panics e)
              | Some (Returns (d, found')) \<Rightarrow>
                  if \<not> found' then Some (Returns (None, None, - finalRes))
                  else range_resources GetColl FindDoc holder finalRes len (i + 1) rest lastColl d
                         found'))
      else
        (case (case lastDoc of None \<Rightarrow> None | Some d \<Rightarrow> holder d) of
           None \<Rightarrow>
             (if \<not> found then Some (Returns (None, None, - finalRes))
              else range_resources GetColl FindDoc holder finalRes len (i + 1) rest lastColl lastDoc
                     found)
         | Some getColl \<Rightarrow>
             (case getColl resource of
                None \<Rightarrow> None
              | Some (Panics e) \<Rightarrow> Some (Panics e)
              | Some (Returns (c, found')) \<Rightarrow>
                  if \<not> found' then Some (Returns (None, None, - finalRes))
                  else range_resources GetColl FindDoc holder finalRes len (i + 1) rest c lastDoc
                         found')))"

text \<open>The block "Identify the final resource" of \<^verbatim>\<open>ParsePath\<close>.\<close>

definition final_resource :: "string list \<Rightarrow> int" where
  "final_resource resources =
     (if length resources = 1 then RESOURCE_DB_PUT_DEL
      else if length resources = 2 \<and> resources ! 1 = [] then RESOURCE_DB
      else if length resources > 2 \<and> resources ! (length resources - 1) = [] then RESOURCE_COLL
      else RESOURCE_DOC)"

definition ParsePath ::
  "string \<Rightarrow> 'c lookup \<Rightarrow> ('c \<Rightarrow> 'd lookup) \<Rightarrow> ('d \<Rightarrow> 'c lookup option)
     \<Rightarrow> ('c option \<times> 'd option \<times> int) outcome option"
where
  "ParsePath request GetColl FindDoc holder =
     (case CutPrefix request ''/v1/'' of
        None \<Rightarrow> Some (Returns (None, None, ERROR_NO_VERSION))
      | Some path \<Rightarrow>
          (let resources = Split path in
           if length resources = 0 then Some (Returns (None, None, ERROR_BAD_SLASH))
           else if length resources > 1 \<and> length resources mod 2 = 1
             then Some (Returns (None, None, ERROR_BAD_SLASH))
           else range_resources GetColl FindDoc holder (final_resource resources)
                  (length resources) 0 resources None None True))"

text \<open>
  The resources of the repository: the root is a \<^verbatim>\<open>CollectionHolder\<close>, whose
  \<^verbatim>\<open>GetColl\<close> is \<^verbatim>\<open>Find\<close> on its skip list of collections; a collection is a
  \<^verbatim>\<open>*Collection\<close>, whose \<^verbatim>\<open>FindDoc\<close> is \<^verbatim>\<open>Find\<close> on its skip list of documents; a
  document is a \<^verbatim>\<open>*Document\<close>, which has the three methods of
  \<^verbatim>\<open>ICollectionHolder\<close> and whose \<^verbatim>\<open>GetColl\<close> is that of its \<^verbatim>\<open>children\<close>.
  Collections live in a memory of their own, by address.
\<close>

definition ICollectionHolder :: "string list" where
  "ICollectionHolder = [''PutColl'', ''GetColl'', ''DeleteColl'']"

definition CollectionHolder_GetColl :: "(string, nat option) SkipList \<Rightarrow> nat lookup" where
  "CollectionHolder_GetColl collections resource = Find None collections resource"

definition Collection_FindDoc :: "(nat \<Rightarrow> Collection) \<Rightarrow> nat \<Rightarrow> nat lookup" where
  "Collection_FindDoc collections_at c resource = Find None (documents (collections_at c)) resource"

definition Document_holder :: "(nat \<Rightarrow> Document) \<Rightarrow> nat \<Rightarrow> nat lookup option" where
  "Document_holder docs d =
     (if type_assert (Some d) ICollectionHolder
      then Some (CollectionHolder_GetColl (children (docs d))) else None)"

definition ParsePath_in ::
  "(string, nat option) SkipList \<Rightarrow> (nat \<Rightarrow> Collection) \<Rightarrow> (nat \<Rightarrow> Document) \<Rightarrow> string
     \<Rightarrow> (nat option \<times> nat option \<times> int) outcome option"
where
  "ParsePath_in dbs collections_at docs request =
     ParsePath request (CollectionHolder_GetColl dbs) (Collection_FindDoc collections_at)
       (Document_holder docs)"






definition empty_holder :: "(string, nat option) SkipList" where
  "empty_holder = New None STRINGMIN STRINGMAX DEFAULT_LEVEL"








subsection \<open>Properties of the path resolver\<close>
















text \<open>
  On an empty root, whose skip list is bounded by \<^verbatim>\<open>STRINGMAX\<close> = U+0100: the name U+0100
  is found, with the \<^verbatim>\<open>nil\<close> collection of the tail sentinel, so the path is answered with
  the internal error, or panics when a document is looked up in that collection; a name above
  U+0100 makes the lookup itself panic.
\<close>

lemma ParsePath_at_upper_bound:
  "ParsePath_in empty_holder cs ds [CHR ''/'', CHR ''v'', CHR ''1'', CHR ''/'', CHR 0xC4, CHR 0x80] =
     Some (Returns (None, None, ERROR_INTERNAL)) \<and>
   ParsePath_in empty_holder cs ds
       [CHR ''/'', CHR ''v'', CHR ''1'', CHR ''/'', CHR 0xC4, CHR 0x80, CHR ''/''] =
     Some (Returns (None, None, ERROR_INTERNAL)) \<and>
   ParsePath_in empty_holder cs ds
       [CHR ''/'', CHR ''v'', CHR ''1'', CHR ''/'', CHR 0xC4, CHR 0x80, CHR ''/'', CHR ''d''] =
     Some (Panics NilDereference) \<and>
   ParsePath_in empty_holder cs ds [CHR ''/'', CHR ''v'', CHR ''1'', CHR ''/'', CHR 0xC5, CHR 0x81] =
     Some (Panics NilDereference)"
proof -
  have f: "Find None empty_holder [CHR 0xC4, CHR 0x80] = Some (Returns (None, True))"
    by code_simp
  have g: "Find None empty_holder [CHR 0xC5, CHR 0x81] = Some (Panics NilDereference)"
    by code_simp
  show ?thesis
    by (simp add: ParsePath_in_def ParsePath_def CutPrefix_def final_resource_def resource_codes
        CollectionHolder_GetColl_def f g)
qed





end
